theory Spec2Isabelle
  imports Main "HOL-Library.Signed_Division" "HOL-Library.Monad_Syntax" "HOL-Library.Stream"
begin

section \<open>Melee at Sea: the combat and movement engine\<close>

text \<open>
  A shallow embedding of the JavaScript sources \<^verbatim>\<open>constants.js\<close>, \<^verbatim>\<open>board.js\<close>,
  \<^verbatim>\<open>ship.js\<close>, \<^verbatim>\<open>combat.js\<close>, \<^verbatim>\<open>ai.js\<close> and the rule part of \<^verbatim>\<open>game.js\<close>.

  \<^item> JavaScript numbers that hold grid coordinates, lengths, degrees and cannon counts
    are modelled as \<^typ>\<open>int\<close>.
  \<^item> Ship objects are mutable and shared between the fleet arrays, so they live in an
    explicit heap: a reference is a natural number, the heap maps every reference to
    the ship it denotes, and the arrays \<^verbatim>\<open>playerShips\<close>, \<^verbatim>\<open>enemyShips\<close>,
    \<^verbatim>\<open>allShips\<close> are lists of references. The test \<^verbatim>\<open>ship === this\<close> is equality
    of references.
  \<^item> A \<^verbatim>\<open>TypeError\<close> (reading \<^verbatim>\<open>dx\<close> of \<^verbatim>\<open>undefined\<close> when the orientation is
    not a key of \<^verbatim>\<open>DIRECTION_VECTORS\<close>) is the value \<^term>\<open>None\<close>; every function
    that can throw returns an \<^typ>\<open>'a option\<close>.
  \<^item> \<^verbatim>\<open>Math.random\<close> is an explicit stream of draws that the functions consume.
\<close>

subsection \<open>constants.js\<close>

definition GRID_COLS :: int where "GRID_COLS = 20"
definition GRID_ROWS :: int where "GRID_ROWS = 15"

definition UP :: int where "UP = 0"
definition RIGHT :: int where "RIGHT = 90"
definition DOWN :: int where "DOWN = 180"
definition LEFT :: int where "LEFT = 270"

type_synonym cell = "int \<times> int"

text \<open>A direction vector \<^verbatim>\<open>{dx, dy}\<close> is the pair \<open>(dx, dy)\<close>; a missing key is \<^term>\<open>None\<close>.\<close>

definition DIRECTION_VECTORS :: "int \<Rightarrow> (int \<times> int) option" where
  "DIRECTION_VECTORS k =
     (if k = UP then Some (0, -1)
      else if k = RIGHT then Some (1, 0)
      else if k = DOWN then Some (0, 1)
      else if k = LEFT then Some (-1, 0)
      else None)"

datatype GameState =
    TITLE | PLAYER_SELECT | PLAYER_MOVE | PLAYER_FIRE | ENEMY_TURN
  | PLAYER2_SELECT | PLAYER2_MOVE | PLAYER2_FIRE | GAME_OVER

subsection \<open>board.js\<close>

record Board =
  cols :: int
  rows :: int

definition isValidCell :: "Board \<Rightarrow> int \<Rightarrow> int \<Rightarrow> bool" where
  "isValidCell b gridX gridY \<longleftrightarrow> gridX \<ge> 0 \<and> gridX < cols b \<and> gridY \<ge> 0 \<and> gridY < rows b"

subsection \<open>ship.js\<close>

record Ship =
  ship_x :: int
  ship_y :: int
  ship_length :: int
  maxLength :: int
  orientation :: int
  team :: string
  board :: Board
  selected :: bool
  hasMoved :: bool
  hasFired :: bool
  maxCannonsPerSide :: int
  cannonsPerSide :: int

text \<open>The constructor \<^verbatim>\<open>new Ship(x, y, length, orientation, team, board)\<close>.\<close>

definition newShip :: "int \<Rightarrow> int \<Rightarrow> int \<Rightarrow> int \<Rightarrow> string \<Rightarrow> Board \<Rightarrow> Ship" where
  "newShip x y l ori t b =
     \<lparr> ship_x = x, ship_y = y, ship_length = l, maxLength = l, orientation = ori,
       team = t, board = b, selected = False, hasMoved = False, hasFired = False,
       maxCannonsPerSide = l - 1, cannonsPerSide = l - 1 \<rparr>"

definition isAlive :: "Ship \<Rightarrow> bool" where
  "isAlive s \<longleftrightarrow> cannonsPerSide s > 0"

text \<open>
  The loop \<^verbatim>\<open>for (i = 0; i < this.length; i++)\<close> reads \<^verbatim>\<open>dir.dx\<close> in its body, so
  an unknown orientation throws exactly when the body runs at least once.
\<close>

definition trail :: "int \<Rightarrow> int \<Rightarrow> int \<Rightarrow> (int \<times> int) option \<Rightarrow> cell list option" where
  "trail l x0 y0 dir =
     (if l \<le> 0 then Some []
      else case dir of
             None \<Rightarrow> None
           | Some d \<Rightarrow> Some (map (\<lambda>i. (x0 - fst d * int i, y0 - snd d * int i)) [0..<nat l]))"

definition getCells :: "Ship \<Rightarrow> cell list option" where
  "getCells s =
     trail (ship_length s) (ship_x s) (ship_y s) (DIRECTION_VECTORS (orientation s))"

definition getCellsAt :: "Ship \<Rightarrow> int \<Rightarrow> int \<Rightarrow> int option \<Rightarrow> cell list option" where
  "getCellsAt s newX newY newOrientation =
     (let newOrientation' = (case newOrientation of None \<Rightarrow> orientation s | Some ori \<Rightarrow> ori)
      in trail (ship_length s) newX newY (DIRECTION_VECTORS newOrientation'))"

text \<open>
  \<^verbatim>\<open>if (isValidCell(fx, fy)) { if (!cells.some(...)) cells.push({x: fx, y: fy}) }\<close>,
  the body shared by the two fire-zone loops.
\<close>

definition pushUnique :: "Board \<Rightarrow> cell list \<Rightarrow> cell \<Rightarrow> cell list" where
  "pushUnique b acc c =
     (if isValidCell b (fst c) (snd c)
      then (if (\<exists>e \<in> set acc. fst e = fst c \<and> snd e = snd c) then acc else acc @ [c])
      else acc)"

definition getFireZones :: "Ship \<Rightarrow> int \<Rightarrow> cell list option" where
  "getFireZones s maxRange =
     do {
       shipCells \<leftarrow> getCells s;
       let perpDirs = (if orientation s = UP \<or> orientation s = DOWN
                       then [(1, 0), (-1, 0)] else [(0, 1), (0, -1)]);
       Some (foldl (pushUnique (board s)) []
               (concat (map (\<lambda>cell.
                  concat (map (\<lambda>pdir.
                    map (\<lambda>distance. (fst cell + fst pdir * distance, snd cell + snd pdir * distance))
                      [1..maxRange]) perpDirs)) shipCells)))
     }"

type_synonym ref = nat
type_synonym heap = "ref \<Rightarrow> Ship"

text \<open>
  The second loop of \<^verbatim>\<open>canOccupy\<close>: dead ships and the ship itself are skipped, the
  first collision returns false.
\<close>

fun canOccupyLoop :: "heap \<Rightarrow> ref \<Rightarrow> cell list \<Rightarrow> ref list \<Rightarrow> bool option" where
  "canOccupyLoop h this cells [] = Some True"
| "canOccupyLoop h this cells (r # rs) =
     (if r = this \<or> \<not> isAlive (h r) then canOccupyLoop h this cells rs
      else case getCells (h r) of
             None \<Rightarrow> None
           | Some otherCells \<Rightarrow>
               if (\<exists>cell \<in> set cells. \<exists>other \<in> set otherCells.
                     fst cell = fst other \<and> snd cell = snd other)
               then Some False
               else canOccupyLoop h this cells rs)"

definition canOccupy :: "heap \<Rightarrow> ref \<Rightarrow> cell list \<Rightarrow> ref list \<Rightarrow> bool option" where
  "canOccupy h this cells allShips =
     (if (\<exists>cell \<in> set cells. \<not> isValidCell (board (h this)) (fst cell) (snd cell))
      then Some False
      else canOccupyLoop h this cells allShips)"

definition canMoveTo :: "heap \<Rightarrow> ref \<Rightarrow> int \<Rightarrow> int \<Rightarrow> ref list \<Rightarrow> bool option" where
  "canMoveTo h this newX newY allShips =
     do { newCells \<leftarrow> getCellsAt (h this) newX newY None;
          canOccupy h this newCells allShips }"

text \<open>
  \<^verbatim>\<open>move\<close> reads \<^verbatim>\<open>dir.dx\<close> only in the forward and backward branches; any other
  direction string leaves the offset at zero.
\<close>

definition move :: "heap \<Rightarrow> ref \<Rightarrow> string \<Rightarrow> ref list \<Rightarrow> (bool \<times> heap) option" where
  "move h this direction allShips =
     do {
       let dir = DIRECTION_VECTORS (orientation (h this));
       d \<leftarrow> (if direction = ''forward'' then map_option (\<lambda>v. (fst v, snd v)) dir
             else if direction = ''backward'' then map_option (\<lambda>v. (- fst v, - snd v)) dir
             else Some (0, 0));
       let newX = ship_x (h this) + fst d;
       let newY = ship_y (h this) + snd d;
       ok \<leftarrow> canMoveTo h this newX newY allShips;
       if ok then Some (True, h(this := (h this)\<lparr>ship_x := newX, ship_y := newY\<rparr>))
       else Some (False, h)
     }"

definition canRotateTo :: "heap \<Rightarrow> ref \<Rightarrow> int \<Rightarrow> ref list \<Rightarrow> bool option" where
  "canRotateTo h this newOrientation allShips =
     do { newCells \<leftarrow> getCellsAt (h this) (ship_x (h this)) (ship_y (h this)) (Some newOrientation);
          canOccupy h this newCells allShips }"

text \<open>JavaScript's \<^verbatim>\<open>%\<close> takes the sign of the dividend: \<^term>\<open>(smod)\<close> on integers.\<close>

definition rotate :: "heap \<Rightarrow> ref \<Rightarrow> string \<Rightarrow> ref list \<Rightarrow> (bool \<times> heap) option" where
  "rotate h this direction allShips =
     do {
       let newOrientation = (if direction = ''cw''
                             then (orientation (h this) + 90) smod 360
                             else (orientation (h this) - 90 + 360) smod 360);
       ok \<leftarrow> canRotateTo h this newOrientation allShips;
       if ok then Some (True, h(this := (h this)\<lparr>orientation := newOrientation\<rparr>))
       else Some (False, h)
     }"

text \<open>\<^verbatim>\<open>takeDamage(amount = 1)\<close>: the new heap and whether the ship is destroyed.\<close>

definition takeDamage :: "heap \<Rightarrow> ref \<Rightarrow> int \<Rightarrow> bool \<times> heap" where
  "takeDamage h this amount =
     (let c = max 0 (cannonsPerSide (h this) - amount)
      in (c \<le> 0, h(this := (h this)\<lparr>cannonsPerSide := c\<rparr>)))"

subsection \<open>combat.js\<close>

text \<open>
  The body of the segment loop of \<^verbatim>\<open>getSideFireZones\<close>: the bow (index 0) and the
  segments past \<^verbatim>\<open>cannonCount\<close> are skipped.
\<close>

definition sideStep ::
  "Board \<Rightarrow> cell list \<Rightarrow> (int \<times> int) list \<Rightarrow> int \<Rightarrow> cell list \<Rightarrow> nat \<Rightarrow> cell list" where
  "sideStep b shipCells sideOffsets cannonCount sideCells i =
     (if i = 0 then sideCells
      else if int i > cannonCount then sideCells
      else foldl (\<lambda>acc offset.
                    pushUnique b acc (fst (shipCells ! i) + fst offset, snd (shipCells ! i) + snd offset))
             sideCells sideOffsets)"

definition getSideFireZones :: "Board \<Rightarrow> Ship \<Rightarrow> cell list option" where
  "getSideFireZones b ship =
     do {
       shipCells \<leftarrow> getCells ship;
       let sideOffsets = (if orientation ship = UP \<or> orientation ship = DOWN
                          then [(-1, 0), (1, 0)] else [(0, -1), (0, 1)]);
       let bodySegments = int (length shipCells) - 1;
       let cannonCount = min (cannonsPerSide ship) bodySegments;
       Some (foldl (sideStep b shipCells sideOffsets cannonCount) [] [0..<length shipCells])
     }"

text \<open>
  The inner loops of \<^verbatim>\<open>getTargetsInRange\<close>: a ship cell is pushed once when some
  zone cell equals it.
\<close>

definition hitCellsOf :: "cell list \<Rightarrow> cell list \<Rightarrow> cell list" where
  "hitCellsOf fireZones shipCells =
     filter (\<lambda>cell. \<exists>zone \<in> set fireZones. fst cell = fst zone \<and> snd cell = snd zone) shipCells"

fun targetsLoop ::
  "heap \<Rightarrow> ref \<Rightarrow> cell list \<Rightarrow> ref list \<Rightarrow> (ref \<times> cell list) list option" where
  "targetsLoop h attacker fireZones [] = Some []"
| "targetsLoop h attacker fireZones (r # rs) =
     (if r = attacker \<or> team (h r) = team (h attacker) then targetsLoop h attacker fireZones rs
      else if \<not> isAlive (h r) then targetsLoop h attacker fireZones rs
      else do {
        shipCells \<leftarrow> getCells (h r);
        let hitCells = hitCellsOf fireZones shipCells;
        rest \<leftarrow> targetsLoop h attacker fireZones rs;
        Some (if length hitCells > 0 then (r, hitCells) # rest else rest)
      })"

definition getTargetsInRange ::
  "Board \<Rightarrow> heap \<Rightarrow> ref \<Rightarrow> ref list \<Rightarrow> (ref \<times> cell list) list option" where
  "getTargetsInRange b h attacker allShips =
     do { fireZones \<leftarrow> getSideFireZones b (h attacker);
          targetsLoop h attacker fireZones allShips }"

text \<open>The search loop of \<^verbatim>\<open>fire\<close>: the first living enemy ship on the target cell is hit.\<close>

fun fireLoop :: "heap \<Rightarrow> ref \<Rightarrow> cell \<Rightarrow> ref list \<Rightarrow> ((ref option \<times> bool) \<times> heap) option" where
  "fireLoop h attacker targetCell [] = Some ((None, False), h)"
| "fireLoop h attacker targetCell (r # rs) =
     (if r = attacker \<or> team (h r) = team (h attacker) then fireLoop h attacker targetCell rs
      else if \<not> isAlive (h r) then fireLoop h attacker targetCell rs
      else do {
        cells \<leftarrow> getCells (h r);
        if (\<exists>cell \<in> set cells. fst cell = fst targetCell \<and> snd cell = snd targetCell)
        then (let (destroyed, h') = takeDamage h r 1 in Some ((Some r, destroyed), h'))
        else fireLoop h attacker targetCell rs
      })"

definition fire ::
  "Board \<Rightarrow> heap \<Rightarrow> ref \<Rightarrow> cell \<Rightarrow> ref list \<Rightarrow> ((ref option \<times> bool) \<times> heap) option" where
  "fire b h attacker targetCell allShips =
     do {
       fireZones \<leftarrow> getSideFireZones b (h attacker);
       let inRange = (\<exists>z \<in> set fireZones. fst z = fst targetCell \<and> snd z = snd targetCell);
       if \<not> inRange then Some ((None, False), h)
       else fireLoop h attacker targetCell allShips
     }"

text \<open>The damage loop of \<^verbatim>\<open>fireBroadside\<close>, over the targets found beforehand.\<close>

fun broadsideLoop :: "heap \<Rightarrow> (ref \<times> cell list) list \<Rightarrow> (ref \<times> bool) list \<times> heap" where
  "broadsideLoop h [] = ([], h)"
| "broadsideLoop h ((ship, hitCells) # ts) =
     (if length hitCells > 0
      then (let (destroyed, h') = takeDamage h ship 1;
                (hits, h'') = broadsideLoop h' ts
            in ((ship, destroyed) # hits, h''))
      else broadsideLoop h ts)"

definition fireBroadside ::
  "Board \<Rightarrow> heap \<Rightarrow> ref \<Rightarrow> ref list \<Rightarrow> ((ref \<times> bool) list \<times> heap) option" where
  "fireBroadside b h attacker allShips =
     (if cannonsPerSide (h attacker) \<le> 0 then Some ([], h)
      else do {
        targets \<leftarrow> getTargetsInRange b h attacker allShips;
        Some (broadsideLoop h targets)
      })"

subsection \<open>ai.js\<close>

text \<open>
  The random source: \<^verbatim>\<open>Math.floor(Math.random() * n)\<close> is some index below \<open>n\<close>. The
  stream holds one natural number per call of \<^verbatim>\<open>Math.random\<close>, reduced modulo \<open>n\<close>.
\<close>

type_synonym rng = "nat stream"

definition randomIndex :: "nat \<Rightarrow> rng \<Rightarrow> nat \<times> rng" where
  "randomIndex n rng = (shd rng mod n, stl rng)"

text \<open>
  \<^verbatim>\<open>shuffle(array)\<close>: \<^verbatim>\<open>for (i = array.length - 1; i > 0; i--)\<close> swaps \<^verbatim>\<open>array[i]\<close>
  with \<^verbatim>\<open>array[j]\<close>, \<open>j\<close> a random index of \<open>0..i\<close>.
\<close>

fun shuffleLoop :: "nat \<Rightarrow> 'a list \<Rightarrow> rng \<Rightarrow> 'a list \<times> rng" where
  "shuffleLoop 0 array rng = (array, rng)"
| "shuffleLoop (Suc k) array rng =
     (let (j, rng') = randomIndex (Suc k + 1) rng
      in shuffleLoop k (array[Suc k := array ! j, j := array ! Suc k]) rng')"

definition shuffle :: "'a list \<Rightarrow> rng \<Rightarrow> 'a list \<times> rng" where
  "shuffle array rng = shuffleLoop (length array - 1) array rng"

text \<open>An action object \<^verbatim>\<open>{type, dir}\<close>; \<^verbatim>\<open>dir\<close> is \<^verbatim>\<open>null\<close> for a fire action.\<close>

datatype Action = Action (act_type: string) (act_dir: "string option")

text \<open>
  The direction handed to \<^verbatim>\<open>move\<close> and \<^verbatim>\<open>rotate\<close>; \<^verbatim>\<open>null\<close> compares unequal to
  every direction string those functions test.
\<close>

definition dirArg :: "Action \<Rightarrow> string" where
  "dirArg a = (case act_dir a of None \<Rightarrow> ''null'' | Some d \<Rightarrow> d)"

text \<open>
  The second loop of \<^verbatim>\<open>evaluatePosition\<close>: for every living player ship, 5 is
  subtracted for every pair of an own cell and an equal zone cell.
\<close>

fun threatLoop :: "heap \<Rightarrow> ref \<Rightarrow> int \<Rightarrow> ref list \<Rightarrow> int option" where
  "threatLoop h ship score [] = Some score"
| "threatLoop h ship score (playerShip # ps) =
     (if \<not> isAlive (h playerShip) then threatLoop h ship score ps
      else do {
        enemyFireZones \<leftarrow> getFireZones (h playerShip) 3;
        shipCells \<leftarrow> getCells (h ship);
        let matches = concat (map (\<lambda>cell.
                        filter (\<lambda>zone. fst cell = fst zone \<and> snd cell = snd zone) enemyFireZones)
                        shipCells);
        threatLoop h ship (score - 5 * int (length matches)) ps
      })"

text \<open>The third loop: the closeness bonus per living player ship.\<close>

fun distanceLoop :: "heap \<Rightarrow> ref \<Rightarrow> int \<Rightarrow> ref list \<Rightarrow> int" where
  "distanceLoop h ship score [] = score"
| "distanceLoop h ship score (playerShip # ps) =
     (if \<not> isAlive (h playerShip) then distanceLoop h ship score ps
      else (let distance = \<bar>ship_x (h ship) - ship_x (h playerShip)\<bar>
                         + \<bar>ship_y (h ship) - ship_y (h playerShip)\<bar>
            in distanceLoop h ship (score + max 0 (10 - distance)) ps))"

definition evaluatePosition :: "Board \<Rightarrow> heap \<Rightarrow> ref \<Rightarrow> ref list \<Rightarrow> ref list \<Rightarrow> int option" where
  "evaluatePosition b h ship playerShips allShips =
     do {
       targets \<leftarrow> getTargetsInRange b h ship allShips;
       let score = foldl (\<lambda>score (target, hitCells). score + int (length hitCells) * 10) 0 targets;
       score' \<leftarrow> threatLoop h ship score playerShips;
       Some (distanceLoop h ship score' playerShips)
     }"

text \<open>
  The candidate loop of \<^verbatim>\<open>findBestMove\<close>: save the pose, try the move, score it when
  it succeeded, restore the pose.
\<close>

fun findBestMoveLoop ::
  "Board \<Rightarrow> heap \<Rightarrow> ref \<Rightarrow> ref list \<Rightarrow> ref list \<Rightarrow> int \<Rightarrow> Action option \<Rightarrow> Action list
     \<Rightarrow> (Action option \<times> heap) option" where
  "findBestMoveLoop b h ship playerShips allShips bestScore bestMove [] = Some (bestMove, h)"
| "findBestMoveLoop b h ship playerShips allShips bestScore bestMove (mv # mvs) =
     do {
       let oldX = ship_x (h ship);
       let oldY = ship_y (h ship);
       let oldOrientation = orientation (h ship);
       (success, h1) \<leftarrow>
          (if act_type mv = ''move'' then move h ship (dirArg mv) allShips
           else if act_type mv = ''rotate'' then rotate h ship (dirArg mv) allShips
           else Some (False, h));
       if success then do {
         score \<leftarrow> evaluatePosition b h1 ship playerShips allShips;
         let h2 = h1(ship := (h1 ship)\<lparr>ship_x := oldX, ship_y := oldY, orientation := oldOrientation\<rparr>);
         if score > bestScore
         then findBestMoveLoop b h2 ship playerShips allShips score (Some mv) mvs
         else findBestMoveLoop b h2 ship playerShips allShips bestScore bestMove mvs
       } else do {
         let h2 = h1(ship := (h1 ship)\<lparr>ship_x := oldX, ship_y := oldY, orientation := oldOrientation\<rparr>);
         findBestMoveLoop b h2 ship playerShips allShips bestScore bestMove mvs
       }
     }"

definition candidateMoves :: "Action list" where
  "candidateMoves =
     [Action ''move'' (Some ''forward''), Action ''move'' (Some ''backward''),
      Action ''rotate'' (Some ''cw''), Action ''rotate'' (Some ''ccw'')]"

definition findBestMove ::
  "Board \<Rightarrow> heap \<Rightarrow> ref \<Rightarrow> ref list \<Rightarrow> ref list \<Rightarrow> rng \<Rightarrow> (Action option \<times> heap \<times> rng) option" where
  "findBestMove b h ship playerShips allShips rng =
     (let (moves, rng') = shuffle candidateMoves rng
      in map_option (\<lambda>(bestMove, h'). (bestMove, h', rng'))
           (findBestMoveLoop b h ship playerShips allShips (-1) None moves))"

text \<open>
  The scan of \<^verbatim>\<open>takeTurn\<close> over the shuffled living ships, carrying
  \<^verbatim>\<open>bestShip\<close>, \<^verbatim>\<open>bestAction\<close> and \<^verbatim>\<open>bestPriority\<close>.
\<close>

fun scanLoop ::
  "Board \<Rightarrow> heap \<Rightarrow> ref list \<Rightarrow> ref list \<Rightarrow> rng \<Rightarrow> ref option \<Rightarrow> Action option \<Rightarrow> int \<Rightarrow> ref list
     \<Rightarrow> (ref option \<times> Action option \<times> heap \<times> rng) option" where
  "scanLoop b h playerShips allShips rng bestShip bestAction bestPriority [] =
     Some (bestShip, bestAction, h, rng)"
| "scanLoop b h playerShips allShips rng bestShip bestAction bestPriority (ship # rest) =
     do {
       targets \<leftarrow> getTargetsInRange b h ship allShips;
       if length targets > 0 then
         (if bestPriority < 2
          then scanLoop b h playerShips allShips rng (Some ship) (Some (Action ''fire'' None)) 2 rest
          else scanLoop b h playerShips allShips rng bestShip bestAction bestPriority rest)
       else do {
         (mv, h', rng') \<leftarrow> findBestMove b h ship playerShips allShips rng;
         if mv \<noteq> None \<and> bestPriority < 1
         then scanLoop b h' playerShips allShips rng' (Some ship) mv 1 rest
         else scanLoop b h' playerShips allShips rng' bestShip bestAction bestPriority rest
       }
     }"

text \<open>\<^verbatim>\<open>hitNames.join(', ')\<close>.\<close>

fun join :: "string \<Rightarrow> string list \<Rightarrow> string" where
  "join sep [] = []"
| "join sep [w] = w"
| "join sep (w # ws) = w @ sep @ join sep ws"

text \<open>The last part of \<^verbatim>\<open>takeTurn\<close>: the chosen ship carries out the chosen action.\<close>

definition execute ::
  "Board \<Rightarrow> heap \<Rightarrow> ref list \<Rightarrow> ref \<Rightarrow> Action \<Rightarrow> (string list \<times> heap) option" where
  "execute b h allShips bestShip bestAction =
     (if act_type bestAction = ''fire'' then do {
        (hits, h1) \<leftarrow> fireBroadside b h bestShip allShips;
        let h2 = h1(bestShip := (h1 bestShip)\<lparr>hasFired := True\<rparr>);
        if length hits > 0
        then (let hitNames = map (\<lambda>(target, destroyed).
                                    if destroyed then ''destroyed a ship'' else ''hit a ship'') hits
              in Some ([''Enemy fired: '' @ join '', '' hitNames @ ''!''], h2))
        else Some ([''Enemy ship fired but missed!''], h2)
      }
      else if act_type bestAction = ''move'' then do {
        (moved, h1) \<leftarrow> move h bestShip (dirArg bestAction) allShips;
        if moved then Some ([''Enemy ship advanced''], h1(bestShip := (h1 bestShip)\<lparr>hasMoved := True\<rparr>))
        else Some ([], h1)
      }
      else if act_type bestAction = ''rotate'' then do {
        (moved, h1) \<leftarrow> rotate h bestShip (dirArg bestAction) allShips;
        if moved then Some ([''Enemy ship maneuvered''], h1(bestShip := (h1 bestShip)\<lparr>hasMoved := True\<rparr>))
        else Some ([], h1)
      }
      else Some ([], h))"

definition takeTurn ::
  "Board \<Rightarrow> heap \<Rightarrow> ref list \<Rightarrow> ref list \<Rightarrow> ref list \<Rightarrow> rng \<Rightarrow> (string list \<times> heap \<times> rng) option" where
  "takeTurn b h enemyShips playerShips allShips rng =
     (let aliveShips = filter (\<lambda>ship. isAlive (h ship)) enemyShips in
      if length aliveShips = 0 then Some ([], h, rng)
      else do {
        let (aliveShips', rng1) = shuffle aliveShips rng;
        (bestShip, bestAction, h1, rng2) \<leftarrow>
           scanLoop b h playerShips allShips rng1 None None (-1) aliveShips';
        (bestShip', bestAction', h2, rng3) \<leftarrow>
           (case bestShip of
              Some ship \<Rightarrow> Some (ship, bestAction, h1, rng2)
            | None \<Rightarrow>
               (let (k, rng') = randomIndex (length aliveShips') rng2;
                    ship = aliveShips' ! k
                in map_option (\<lambda>(mv, h', rng''). (ship, mv, h', rng''))
                     (findBestMove b h1 ship playerShips allShips rng')));
        (case bestAction' of
           None \<Rightarrow> Some ([], h2, rng3)
         | Some action \<Rightarrow>
             map_option (\<lambda>(actions, h3). (actions, h3, rng3)) (execute b h2 allShips bestShip' action))
      })"

subsection \<open>game.js\<close>

record Game =
  state :: GameState
  playerWon :: bool
  playerShips :: "ref list"
  enemyShips :: "ref list"
  allShips :: "ref list"

definition checkGameOver :: "heap \<Rightarrow> Game \<Rightarrow> bool \<times> Game" where
  "checkGameOver h g =
     (let playerAlive = (\<exists>s \<in> set (playerShips g). isAlive (h s));
          enemyAlive = (\<exists>s \<in> set (enemyShips g). isAlive (h s))
      in if \<not> enemyAlive then (True, g\<lparr>state := GAME_OVER, playerWon := True\<rparr>)
         else if \<not> playerAlive then (True, g\<lparr>state := GAME_OVER, playerWon := False\<rparr>)
         else (False, g))"

subsection \<open>The data model and the narrow fire zone in the words of the specification\<close>

text \<open>The four orientations of the data model: up, right, down, left.\<close>

definition validOrientation :: "int \<Rightarrow> bool" where
  "validOrientation ori \<longleftrightarrow> ori = UP \<or> ori = RIGHT \<or> ori = DOWN \<or> ori = LEFT"

text \<open>Segment \<open>i\<close> of a ship: the bow is segment 0, the body trails behind it.\<close>

definition segmentAt :: "Ship \<Rightarrow> int \<Rightarrow> cell" where
  "segmentAt s i =
     (case DIRECTION_VECTORS (orientation s) of
        Some d \<Rightarrow> (ship_x s - fst d * i, ship_y s - snd d * i)
      | None \<Rightarrow> (ship_x s, ship_y s))"

text \<open>The two lateral neighbours of a cell: along X for a vertical ship, along Y otherwise.\<close>

definition lateralNeighbours :: "int \<Rightarrow> cell \<Rightarrow> cell set" where
  "lateralNeighbours ori c =
     (if ori = UP \<or> ori = DOWN then {(fst c - 1, snd c), (fst c + 1, snd c)}
      else {(fst c, snd c - 1), (fst c, snd c + 1)})"

text \<open>
  The in-bounds lateral neighbours of the body segments \<open>1 .. min(cannonCapacity, length - 1)\<close>.
\<close>

definition sideFireZones_spec :: "Board \<Rightarrow> Ship \<Rightarrow> cell set" where
  "sideFireZones_spec b s =
     {c \<in> (\<Union>i \<in> set [1..min (cannonsPerSide s) (ship_length s - 1)].
              lateralNeighbours (orientation s) (segmentAt s i)).
        isValidCell b (fst c) (snd c)}"

text \<open>The candidate cells of one segment: the segment cell shifted by each side offset.\<close>

definition segmentNeighbours :: "cell list \<Rightarrow> (int \<times> int) list \<Rightarrow> nat \<Rightarrow> cell list" where
  "segmentNeighbours shipCells sideOffsets i =
     map (\<lambda>offset. (fst (shipCells ! i) + fst offset, snd (shipCells ! i) + snd offset)) sideOffsets"

subsection \<open>The targets of a broadside in the words of the specification\<close>

text \<open>
  A target of a broadside: a living ship of the other team with at least one occupied
  cell in the attacker's narrow fire zone.
\<close>

definition isTarget :: "Board \<Rightarrow> heap \<Rightarrow> ref \<Rightarrow> ref \<Rightarrow> bool" where
  "isTarget b h attacker r \<longleftrightarrow>
     team (h r) \<noteq> team (h attacker) \<and> isAlive (h r) \<and>
     (case getSideFireZones b (h attacker) of
        None \<Rightarrow> False
      | Some zs \<Rightarrow> (case getCells (h r) of
                     None \<Rightarrow> False
                   | Some cs \<Rightarrow> (\<exists>c \<in> set cs. c \<in> set zs)))"

text \<open>One application of \<open>takeDamage(1)\<close> to a living ship.\<close>

definition hitOnce :: "Ship \<Rightarrow> Ship" where
  "hitOnce s = s\<lparr>cannonsPerSide := cannonsPerSide s - 1\<rparr>"

subsection \<open>The position score in the words of the specification\<close>

text \<open>The occupied cells of a ship: segments \<open>0 .. length - 1\<close>.\<close>

definition occupiedCells :: "Ship \<Rightarrow> cell list" where
  "occupiedCells s = map (\<lambda>i. segmentAt s (int i)) [0..<nat (ship_length s)]"

text \<open>
  The wide threat zone: the in-bounds cells (on the ship's own board) at lateral distance
  1 to 3 from any occupied cell.
\<close>

definition lateralAt :: "int \<Rightarrow> cell \<Rightarrow> int \<Rightarrow> cell set" where
  "lateralAt ori c d =
     (if ori = UP \<or> ori = DOWN then {(fst c + d, snd c), (fst c - d, snd c)}
      else {(fst c, snd c + d), (fst c, snd c - d)})"

definition wideZone_spec :: "Ship \<Rightarrow> cell set" where
  "wideZone_spec s =
     {c \<in> (\<Union>cell \<in> set (occupiedCells s). \<Union>d \<in> set [1..3]. lateralAt (orientation s) cell d).
        isValidCell (board s) (fst c) (snd c)}"

text \<open>The other-team living ships of a fleet, as \<open>getTargetsInRange\<close> selects them.\<close>

definition enemiesOf :: "heap \<Rightarrow> ref \<Rightarrow> ref list \<Rightarrow> ref list" where
  "enemiesOf h ship fleet =
     filter (\<lambda>r. r \<noteq> ship \<and> team (h r) \<noteq> team (h ship) \<and> isAlive (h r)) fleet"

definition manhattan :: "Ship \<Rightarrow> Ship \<Rightarrow> int" where
  "manhattan s p = \<bar>ship_x s - ship_x p\<bar> + \<bar>ship_y s - ship_y p\<bar>"

text \<open>
  The score, term by term: 10 per occupied cell of each living other-team ship of
  \<open>allShips\<close> inside the narrow zone; 5 off for every pair of a living ship of
  \<open>playerShips\<close> and an own cell inside that ship's wide zone; the closeness bonus per
  living ship of \<open>playerShips\<close>.
\<close>

definition score_spec :: "Board \<Rightarrow> heap \<Rightarrow> ref \<Rightarrow> ref list \<Rightarrow> ref list \<Rightarrow> int" where
  "score_spec b h ship ps fleet =
     10 * (\<Sum>r \<leftarrow> enemiesOf h ship fleet.
             int (length (filter (\<lambda>c. c \<in> sideFireZones_spec b (h ship)) (occupiedCells (h r)))))
     - 5 * (\<Sum>p \<leftarrow> filter (\<lambda>p. isAlive (h p)) ps.
             int (length (filter (\<lambda>c. c \<in> wideZone_spec (h p)) (occupiedCells (h ship)))))
     + (\<Sum>p \<leftarrow> filter (\<lambda>p. isAlive (h p)) ps. max 0 (10 - manhattan (h ship) (h p)))"

text \<open>
  The score as the claim words it: the second term counts each own cell once when it lies
  in the wide zone of some living player ship (and the first counts each threatened cell
  once). The zones are the lists the code computes.
\<close>

definition narrowList :: "Board \<Rightarrow> Ship \<Rightarrow> cell list" where
  "narrowList b s = (case getSideFireZones b s of None \<Rightarrow> [] | Some zs \<Rightarrow> zs)"

definition wideList :: "Ship \<Rightarrow> cell list" where
  "wideList s = (case getFireZones s 3 of None \<Rightarrow> [] | Some zs \<Rightarrow> zs)"

definition score_claimed :: "Board \<Rightarrow> heap \<Rightarrow> ref \<Rightarrow> ref list \<Rightarrow> ref list \<Rightarrow> int" where
  "score_claimed b h ship ps fleet =
     10 * int (length (remdups (filter (\<lambda>c. c \<in> set (narrowList b (h ship)))
                 (concat (map (\<lambda>r. occupiedCells (h r)) (enemiesOf h ship fleet))))))
     - 5 * int (length (filter (\<lambda>c. \<exists>p \<in> set ps. isAlive (h p) \<and> c \<in> set (wideList (h p)))
                 (occupiedCells (h ship))))
     + (\<Sum>p \<leftarrow> filter (\<lambda>p. isAlive (h p)) ps. max 0 (10 - manhattan (h ship) (h p)))"

subsection \<open>Names for the parts of \<open>move\<close> and \<open>rotate\<close>\<close>

text \<open>The offset \<open>(dx, dy)\<close> that \<open>move\<close> computes from the direction string.\<close>

definition offset :: "Ship \<Rightarrow> string \<Rightarrow> (int \<times> int) option" where
  "offset s direction =
     (if direction = ''forward'' then map_option (\<lambda>v. (fst v, snd v)) (DIRECTION_VECTORS (orientation s))
      else if direction = ''backward'' then map_option (\<lambda>v. (- fst v, - snd v)) (DIRECTION_VECTORS (orientation s))
      else Some (0, 0))"

text \<open>The heap after the assignments \<^verbatim>\<open>this.x = newX; this.y = newY\<close>.\<close>

definition moved :: "heap \<Rightarrow> ref \<Rightarrow> int \<times> int \<Rightarrow> heap" where
  "moved h this d =
     h(this := (h this)\<lparr>ship_x := ship_x (h this) + fst d, ship_y := ship_y (h this) + snd d\<rparr>)"

text \<open>The candidate orientation of \<open>rotate\<close>, and the heap after \<^verbatim>\<open>this.orientation = newOrientation\<close>.\<close>

definition turned :: "int \<Rightarrow> string \<Rightarrow> int" where
  "turned ori direction =
     (if direction = ''cw'' then (ori + 90) smod 360 else (ori - 90 + 360) smod 360)"

definition rotated :: "heap \<Rightarrow> ref \<Rightarrow> string \<Rightarrow> heap" where
  "rotated h this direction =
     h(this := (h this)\<lparr>orientation := turned (orientation (h this)) direction\<rparr>)"

subsection \<open>Names for the parts of \<open>findBestMove\<close>\<close>

text \<open>The assignments that put the saved pose back.\<close>

definition restored :: "heap \<Rightarrow> heap \<Rightarrow> ref \<Rightarrow> heap" where
  "restored h h1 ship =
     h1(ship := (h1 ship)\<lparr>ship_x := ship_x (h ship), ship_y := ship_y (h ship),
                            orientation := orientation (h ship)\<rparr>)"

text \<open>The trial of one candidate.\<close>

definition trial :: "heap \<Rightarrow> ref \<Rightarrow> Action \<Rightarrow> ref list \<Rightarrow> (bool \<times> heap) option" where
  "trial h ship mv fleet =
     (if act_type mv = ''move'' then move h ship (dirArg mv) fleet
      else if act_type mv = ''rotate'' then rotate h ship (dirArg mv) fleet
      else Some (False, h))"

text \<open>Every ship object of the heap has one of the four orientations.\<close>

definition wellFormed :: "heap \<Rightarrow> bool" where
  "wellFormed h \<longleftrightarrow> (\<forall>r. validOrientation (orientation (h r)))"

subsection \<open>The states of a match\<close>

text \<open>
  The placement invariant: every living ship of the fleet has its cells on its board,
  and shares no cell with another living ship of the fleet.
\<close>

definition placementOK :: "heap \<Rightarrow> ref list \<Rightarrow> bool" where
  "placementOK h fleet \<longleftrightarrow>
     (\<forall>r \<in> set fleet. isAlive (h r) \<longrightarrow>
        (case getCells (h r) of
           None \<Rightarrow> False
         | Some cs \<Rightarrow>
             (\<forall>c \<in> set cs. isValidCell (board (h r)) (fst c) (snd c)) \<and>
             (\<forall>r' \<in> set fleet. r' \<noteq> r \<and> isAlive (h r') \<longrightarrow>
                (case getCells (h r') of
                   None \<Rightarrow> False
                 | Some cs' \<Rightarrow> set cs \<inter> set cs' = {}))))"

text \<open>
  One step of a match: some ship moves, rotates, fires at a cell or fires a broadside,
  with the fleet of the match as \<open>allShips\<close>.
\<close>

inductive step :: "Board \<Rightarrow> ref list \<Rightarrow> heap \<Rightarrow> heap \<Rightarrow> bool" for b fleet where
  step_move: "move h r direction fleet = Some (ok, h') \<Longrightarrow> step b fleet h h'"
| step_rotate: "rotate h r direction fleet = Some (ok, h') \<Longrightarrow> step b fleet h h'"
| step_fire: "fire b h r targetCell fleet = Some (res, h') \<Longrightarrow> step b fleet h h'"
| step_fireBroadside: "fireBroadside b h r fleet = Some (hits, h') \<Longrightarrow> step b fleet h h'"

text \<open>The states of a match that starts from a valid placement.\<close>

inductive reachable :: "Board \<Rightarrow> ref list \<Rightarrow> heap \<Rightarrow> bool" for b fleet where
  start: "placementOK h fleet \<Longrightarrow> reachable b fleet h"
| next_state: "reachable b fleet h \<Longrightarrow> step b fleet h h' \<Longrightarrow> reachable b fleet h'"

text \<open>Damage only: every ship keeps its pose and board, and gains no cannon.\<close>

definition damageOnly :: "heap \<Rightarrow> heap \<Rightarrow> bool" where
  "damageOnly h h' \<longleftrightarrow>
     (\<forall>r. getCells (h' r) = getCells (h r) \<and> board (h' r) = board (h r) \<and>
          (isAlive (h' r) \<longrightarrow> isAlive (h r)))"

subsection \<open>Concrete boards and fleets\<close>

text \<open>The board of \<^verbatim>\<open>new Game(canvas)\<close>: \<^verbatim>\<open>new Board(GRID_COLS, GRID_ROWS, CELL_SIZE)\<close>.\<close>

definition gameBoard :: Board where
  "gameBoard = \<lparr> cols = GRID_COLS, rows = GRID_ROWS \<rparr>"

text \<open>A length-3 enemy ship out of cannons next to a length-3 player ship.\<close>

definition spentHeap :: heap where
  "spentHeap = (\<lambda>_. newShip 2 7 3 RIGHT ''player'' gameBoard)
     (0 := (newShip 3 8 3 LEFT ''enemy'' gameBoard)\<lparr>cannonsPerSide := 0\<rparr>)"

text \<open>
  A length-2 player ship where \<^verbatim>\<open>initShips\<close> can put it: bow at (1,0), facing right,
  in the top row of the board. Then the same ship after one and after two
  counter-clockwise quarter turns.
\<close>

definition cornerHeap :: heap where
  "cornerHeap = (\<lambda>_. newShip 1 0 2 RIGHT ''player'' gameBoard)"

definition cornerHeapUp :: heap where
  "cornerHeapUp = cornerHeap(0 := (cornerHeap 0)\<lparr>orientation := UP\<rparr>)"

definition cornerHeapLeft :: heap where
  "cornerHeapLeft = cornerHeap(0 := (cornerHeap 0)\<lparr>orientation := LEFT\<rparr>)"

text \<open>
  A destroyed player ship (reference 0) on (5,5),(4,5), and a living enemy ship that has
  sailed over its stern cell: bow (4,5), facing up. Then the wreck one step forward.
\<close>

definition wreckHeap :: heap where
  "wreckHeap = (\<lambda>_. newShip 4 5 2 UP ''enemy'' gameBoard)
     (0 := (newShip 5 5 2 RIGHT ''player'' gameBoard)\<lparr>cannonsPerSide := 0\<rparr>)"

definition wreckHeapForward :: heap where
  "wreckHeapForward = wreckHeap(0 := (wreckHeap 0)\<lparr>ship_x := 6, ship_y := 5\<rparr>)"

text \<open>A single-player match of the two ships of \<open>spentHeap\<close>, in the player's fire phase.\<close>

definition duelGame :: Game where
  "duelGame = \<lparr> state = PLAYER_FIRE, playerWon = False,
                 playerShips = [1], enemyShips = [0], allShips = [1, 0] \<rparr>"

text \<open>
  Two length-4 player ships in rows 4 and 6 and a length-2 enemy ship (every other
  reference) between them, bow (3,5), facing left.
\<close>

definition skirmishHeap :: heap where
  "skirmishHeap = (\<lambda>_. newShip 3 5 2 LEFT ''enemy'' gameBoard)
     (0 := newShip 3 4 4 RIGHT ''player'' gameBoard,
      1 := newShip 3 6 4 RIGHT ''player'' gameBoard)"

text \<open>
  The length-3 player ship of the fire-zone scenarios (reference 0: bow (5,5), facing
  right) and a length-3 enemy ship alongside it on (3,4),(4,4),(5,4); two of its cells
  lie in the player's fire zone.
\<close>

definition broadsideHeap :: heap where
  "broadsideHeap = (\<lambda>_. newShip 3 4 3 LEFT ''enemy'' gameBoard)
     (0 := newShip 5 5 3 RIGHT ''player'' gameBoard)"

section \<open>Properties\<close>

text \<open>
  Claim C6. For every attacker with \<open>cannonsPerSide \<le> 0\<close>, \<open>fireBroadside\<close> returns the
  empty list of hits and the heap it was given: no ship is damaged, and the result is a
  value (\<open>Some\<close>), never a thrown error, whatever the orientations of the ships are.
\<close>

theorem fireBroadside_no_cannons:
  "cannonsPerSide (h attacker) \<le> 0 \<Longrightarrow> fireBroadside b h attacker fleet = Some ([], h)"
  by (simp add: fireBroadside_def)

theorem fireBroadside_no_cannons_witness:
  "cannonsPerSide (spentHeap 0) \<le> 0 \<and> fireBroadside gameBoard spentHeap 0 [1, 0] = Some ([], spentHeap)"
proof -
  have c: "cannonsPerSide (spentHeap 0) \<le> 0"
    by (simp add: spentHeap_def)
  from fireBroadside_no_cannons [of spentHeap 0 gameBoard "[1, 0]"] show ?thesis
    using c by simp
qed

subsection \<open>The narrow fire zone\<close>

lemma exists_cell_eq [simp]:
  "(\<exists>e \<in> set acc. fst e = fst c \<and> snd e = snd c) \<longleftrightarrow> c \<in> set acc"
  by (auto simp: prod_eq_iff)

lemma pushUnique_set:
  "set (pushUnique b acc c) = set acc \<union> (if isValidCell b (fst c) (snd c) then {c} else {})"
  by (auto simp: pushUnique_def)

lemma pushUnique_distinct: "distinct acc \<Longrightarrow> distinct (pushUnique b acc c)"
  by (auto simp: pushUnique_def)

lemma foldl_pushUnique_set:
  "set (foldl (pushUnique b) acc cs) = set acc \<union> {c \<in> set cs. isValidCell b (fst c) (snd c)}"
  by (induction cs arbitrary: acc) (auto simp: pushUnique_set)

lemma foldl_pushUnique_distinct:
  "distinct acc \<Longrightarrow> distinct (foldl (pushUnique b) acc cs)"
  by (induction cs arbitrary: acc) (auto simp: pushUnique_distinct)

lemma sideStep_alt:
  "sideStep b shipCells sideOffsets cannonCount acc i =
     (if i = 0 \<or> int i > cannonCount then acc
      else foldl (pushUnique b) acc (segmentNeighbours shipCells sideOffsets i))"
  by (simp add: sideStep_def segmentNeighbours_def foldl_map)

lemma sideStep_set:
  "set (sideStep b shipCells sideOffsets cannonCount acc i) =
     set acc \<union> (if i = 0 \<or> int i > cannonCount then {}
                 else {c \<in> set (segmentNeighbours shipCells sideOffsets i). isValidCell b (fst c) (snd c)})"
  by (simp add: sideStep_alt foldl_pushUnique_set)

lemma sideStep_distinct:
  "distinct acc \<Longrightarrow> distinct (sideStep b shipCells sideOffsets cannonCount acc i)"
  by (simp add: sideStep_alt foldl_pushUnique_distinct)

lemma foldl_sideStep_set:
  "set (foldl (sideStep b shipCells sideOffsets cannonCount) acc is) =
     set acc \<union> {c. \<exists>i \<in> set is. i \<noteq> 0 \<and> int i \<le> cannonCount \<and>
                     c \<in> set (segmentNeighbours shipCells sideOffsets i) \<and> isValidCell b (fst c) (snd c)}"
  by (induction "is" arbitrary: acc) (auto simp: sideStep_set split: if_splits)

lemma foldl_sideStep_distinct:
  "distinct acc \<Longrightarrow> distinct (foldl (sideStep b shipCells sideOffsets cannonCount) acc is)"
  by (induction "is" arbitrary: acc) (auto simp: sideStep_distinct)


lemma validOrientation_dir:
  "validOrientation ori \<Longrightarrow> \<exists>d. DIRECTION_VECTORS ori = Some d"
  by (auto simp: validOrientation_def DIRECTION_VECTORS_def)

lemma getCells_valid:
  "validOrientation (orientation s) \<Longrightarrow>
     getCells s = Some (map (\<lambda>i. segmentAt s (int i)) [0..<nat (ship_length s)])"
  by (auto simp: getCells_def trail_def segmentAt_def dest: validOrientation_dir)

lemma segmentNeighbours_set:
  "set (segmentNeighbours cs (if ori = UP \<or> ori = DOWN then [(-1, 0), (1, 0)] else [(0, -1), (0, 1)]) i)
     = lateralNeighbours ori (cs ! i)"
  by (auto simp: segmentNeighbours_def lateralNeighbours_def)

lemma getSideFireZones_set:
  assumes "validOrientation (orientation s)"
  shows "\<exists>zs. getSideFireZones b s = Some zs \<and> distinct zs \<and> set zs = sideFireZones_spec b s"
proof -
  let ?cs = "map (\<lambda>i. segmentAt s (int i)) [0..<nat (ship_length s)]"
  let ?offs = "if orientation s = UP \<or> orientation s = DOWN then [(-1, 0), (1, 0)] else [(0, -1), (0, 1)]"
  let ?cc = "min (cannonsPerSide s) (int (length ?cs) - 1)"
  let ?zs = "foldl (sideStep b ?cs ?offs ?cc) [] [0..<length ?cs]"
  have z: "getSideFireZones b s = Some ?zs"
    using getCells_valid [OF assms] by (simp add: getSideFireZones_def Let_def)
  have d: "distinct ?zs"
    by (rule foldl_sideStep_distinct) simp
  have "set ?zs = sideFireZones_spec b s"
  proof (rule set_eqI)
    fix c
    have "c \<in> set ?zs \<longleftrightarrow>
            (\<exists>i \<in> {0..<nat (ship_length s)}. i \<noteq> 0 \<and> int i \<le> ?cc \<and>
               c \<in> lateralNeighbours (orientation s) (?cs ! i) \<and> isValidCell b (fst c) (snd c))"
      unfolding foldl_sideStep_set segmentNeighbours_set by simp
    also have "\<dots> \<longleftrightarrow>
            (\<exists>i \<in> {0..<nat (ship_length s)}. i \<noteq> 0 \<and> int i \<le> ?cc \<and>
               c \<in> lateralNeighbours (orientation s) (segmentAt s (int i)) \<and> isValidCell b (fst c) (snd c))"
      by (intro bex_cong refl) simp
    also have "\<dots> \<longleftrightarrow> c \<in> sideFireZones_spec b s"
    proof
      assume "\<exists>i \<in> {0..<nat (ship_length s)}. i \<noteq> 0 \<and> int i \<le> ?cc \<and>
               c \<in> lateralNeighbours (orientation s) (segmentAt s (int i)) \<and> isValidCell b (fst c) (snd c)"
      then obtain i where "i < nat (ship_length s)" "i \<noteq> 0" "int i \<le> ?cc"
        "c \<in> lateralNeighbours (orientation s) (segmentAt s (int i))" "isValidCell b (fst c) (snd c)"
        by auto
      then show "c \<in> sideFireZones_spec b s"
        unfolding sideFireZones_spec_def by (auto intro!: bexI [of _ "int i"])
    next
      assume "c \<in> sideFireZones_spec b s"
      then obtain j where j: "1 \<le> j" "j \<le> cannonsPerSide s" "j \<le> ship_length s - 1"
        "c \<in> lateralNeighbours (orientation s) (segmentAt s j)" "isValidCell b (fst c) (snd c)"
        unfolding sideFireZones_spec_def by auto
      then show "\<exists>i \<in> {0..<nat (ship_length s)}. i \<noteq> 0 \<and> int i \<le> ?cc \<and>
               c \<in> lateralNeighbours (orientation s) (segmentAt s (int i)) \<and> isValidCell b (fst c) (snd c)"
        by (intro bexI [of _ "nat j"]) auto
    qed
    finally show "c \<in> set ?zs \<longleftrightarrow> c \<in> sideFireZones_spec b s" .
  qed
  with z d show ?thesis by blast
qed

lemma lateral_other_segment:
  assumes "validOrientation (orientation s)" "i \<noteq> j"
  shows "lateralNeighbours (orientation s) (segmentAt s i) \<inter> lateralNeighbours (orientation s) (segmentAt s j) = {}"
  using assms
  by (auto simp: validOrientation_def lateralNeighbours_def segmentAt_def DIRECTION_VECTORS_def
        UP_def DOWN_def LEFT_def RIGHT_def)


text \<open>
  Claim C2. For every ship (of a valid orientation), \<open>getSideFireZones\<close> returns a list
  without duplicates whose cells are exactly the in-bounds cells laterally adjacent
  (along X for a vertical ship, along Y for a horizontal one) to the body segments
  \<open>1 .. min(cannonsPerSide, length - 1)\<close>; no lateral neighbour of the bow or of a segment
  past that minimum is in it. The length-3 ship with bow (5,5) facing right and two
  cannons per side yields the neighbours of (4,5) and (3,5); after \<open>takeDamage(1)\<close> only
  the neighbours of (4,5) remain.
\<close>

theorem getSideFireZones_exact:
  "(validOrientation (orientation s) \<longrightarrow>
      (\<exists>zs. getSideFireZones b s = Some zs \<and> distinct zs \<and> set zs = sideFireZones_spec b s \<and>
            (\<forall>i. i < 1 \<or> i > min (cannonsPerSide s) (ship_length s - 1) \<longrightarrow>
                 lateralNeighbours (orientation s) (segmentAt s i) \<inter> set zs = {}))) \<and>
   getSideFireZones gameBoard (newShip 5 5 3 RIGHT t gameBoard)
     = Some [(4, 4), (4, 6), (3, 4), (3, 6)] \<and>
   (h r = newShip 5 5 3 RIGHT t gameBoard \<longrightarrow>
      getSideFireZones gameBoard (snd (takeDamage h r 1) r) = Some [(4, 4), (4, 6)])"
proof (intro conjI impI)
  assume v: "validOrientation (orientation s)"
  from getSideFireZones_set [OF v] obtain zs where
    zs: "getSideFireZones b s = Some zs" "distinct zs" "set zs = sideFireZones_spec b s"
    by blast
  have "lateralNeighbours (orientation s) (segmentAt s i) \<inter> set zs = {}"
    if out: "i < 1 \<or> i > min (cannonsPerSide s) (ship_length s - 1)" for i
  proof -
    have "lateralNeighbours (orientation s) (segmentAt s i)
            \<inter> lateralNeighbours (orientation s) (segmentAt s j) = {}"
      if "j \<in> set [1..min (cannonsPerSide s) (ship_length s - 1)]" for j
      using that out by (intro lateral_other_segment [OF v]) auto
    then show ?thesis
      unfolding zs(3) sideFireZones_spec_def by blast
  qed
  with zs show "\<exists>zs. getSideFireZones b s = Some zs \<and> distinct zs \<and> set zs = sideFireZones_spec b s \<and>
            (\<forall>i. i < 1 \<or> i > min (cannonsPerSide s) (ship_length s - 1) \<longrightarrow>
                 lateralNeighbours (orientation s) (segmentAt s i) \<inter> set zs = {})"
    by blast
next
  show "getSideFireZones gameBoard (newShip 5 5 3 RIGHT t gameBoard)
     = Some [(4, 4), (4, 6), (3, 4), (3, 6)]"
    by (simp add: getSideFireZones_def getCells_def trail_def newShip_def DIRECTION_VECTORS_def
        UP_def DOWN_def LEFT_def RIGHT_def gameBoard_def GRID_COLS_def GRID_ROWS_def sideStep_def
        pushUnique_def isValidCell_def upt_rec numeral_nat nth_Cons')
next
  assume "h r = newShip 5 5 3 RIGHT t gameBoard"
  then show "getSideFireZones gameBoard (snd (takeDamage h r 1) r) = Some [(4, 4), (4, 6)]"
    by (simp add: getSideFireZones_def getCells_def trail_def newShip_def DIRECTION_VECTORS_def
        takeDamage_def UP_def DOWN_def LEFT_def RIGHT_def gameBoard_def GRID_COLS_def GRID_ROWS_def
        sideStep_def pushUnique_def isValidCell_def upt_rec numeral_nat nth_Cons')
qed

theorem getSideFireZones_exact_witness:
  "validOrientation (orientation (newShip 5 5 3 RIGHT ''player'' gameBoard)) \<and>
   (\<exists>zs. getSideFireZones gameBoard (newShip 5 5 3 RIGHT ''player'' gameBoard) = Some zs \<and>
         distinct zs \<and> set zs = sideFireZones_spec gameBoard (newShip 5 5 3 RIGHT ''player'' gameBoard) \<and>
         lateralNeighbours RIGHT (segmentAt (newShip 5 5 3 RIGHT ''player'' gameBoard) 0) \<inter> set zs = {}) \<and>
   (\<lambda>_. newShip 5 5 3 RIGHT ''player'' gameBoard) (0::nat) = newShip 5 5 3 RIGHT ''player'' gameBoard \<and>
   getSideFireZones gameBoard
     (snd (takeDamage (\<lambda>_. newShip 5 5 3 RIGHT ''player'' gameBoard) 0 1) 0) = Some [(4, 4), (4, 6)]"
proof -
  let ?s = "newShip 5 5 3 RIGHT ''player'' gameBoard"
  have v: "validOrientation (orientation ?s)"
    by (simp add: validOrientation_def newShip_def)
  have o: "orientation ?s = RIGHT"
    by (simp add: newShip_def)
  note t = getSideFireZones_exact [of ?s gameBoard "''player''" "\<lambda>_. ?s" 0]
  from t v obtain zs where
    zs: "getSideFireZones gameBoard ?s = Some zs" "distinct zs" "set zs = sideFireZones_spec gameBoard ?s"
      "\<forall>i. i < 1 \<or> i > min (cannonsPerSide ?s) (ship_length ?s - 1) \<longrightarrow>
           lateralNeighbours (orientation ?s) (segmentAt ?s i) \<inter> set zs = {}"
    by blast
  from zs(4) have "lateralNeighbours (orientation ?s) (segmentAt ?s 0) \<inter> set zs = {}"
    by simp
  with zs o have "\<exists>zs. getSideFireZones gameBoard ?s = Some zs \<and> distinct zs \<and>
      set zs = sideFireZones_spec gameBoard ?s \<and>
      lateralNeighbours RIGHT (segmentAt ?s 0) \<inter> set zs = {}"
    by auto
  moreover from t have
    "getSideFireZones gameBoard (snd (takeDamage (\<lambda>_. ?s) 0 1) 0) = Some [(4, 4), (4, 6)]"
    by simp
  ultimately show ?thesis using v by simp
qed

subsection \<open>Movement and rotation\<close>

lemma collision_iff:
  "(\<exists>cell \<in> set cells. \<exists>other \<in> set cs. fst cell = fst other \<and> snd cell = snd other)
     \<longleftrightarrow> set cells \<inter> set cs \<noteq> {}"
  by (auto simp: prod_eq_iff)

lemma canOccupyLoop_Cons:
  "canOccupyLoop h this cells (r # rs) =
     (if r = this \<or> \<not> isAlive (h r) then canOccupyLoop h this cells rs
      else case getCells (h r) of
             None \<Rightarrow> None
           | Some cs \<Rightarrow> if set cells \<inter> set cs \<noteq> {} then Some False
                        else canOccupyLoop h this cells rs)"
  by (simp only: canOccupyLoop.simps collision_iff)

lemma canOccupyLoop_True:
  "canOccupyLoop h this cells rs = Some True \<longleftrightarrow>
     (\<forall>r \<in> set rs. r \<noteq> this \<and> isAlive (h r) \<longrightarrow>
        (\<exists>cs. getCells (h r) = Some cs \<and> set cells \<inter> set cs = {}))"
proof (induction rs)
  case Nil
  show ?case by simp
next
  case (Cons r rs)
  show ?case
    unfolding canOccupyLoop_Cons list.set ball_simps Cons.IH [symmetric]
    by (cases "getCells (h r)") simp_all
qed

lemma canOccupyLoop_heap_cong:
  "(\<And>r. r \<in> set rs \<Longrightarrow> r \<noteq> this \<Longrightarrow> h' r = h r) \<Longrightarrow>
     canOccupyLoop h' this cells rs = canOccupyLoop h this cells rs"
proof (induction rs)
  case Nil
  show ?case by simp
next
  case (Cons r rs)
  have "canOccupyLoop h' this cells rs = canOccupyLoop h this cells rs"
    by (rule Cons.IH) (simp add: Cons.prems)
  moreover have "r \<noteq> this \<Longrightarrow> h' r = h r"
    by (simp add: Cons.prems)
  ultimately show ?case
    unfolding canOccupyLoop_Cons by (cases "r = this"; cases "getCells (h r)") simp_all
qed

lemma canOccupy_heap_cong:
  "board (h' this) = board (h this) \<Longrightarrow> (\<And>r. r \<noteq> this \<Longrightarrow> h' r = h r) \<Longrightarrow>
     canOccupy h' this cells rs = canOccupy h this cells rs"
  unfolding canOccupy_def using canOccupyLoop_heap_cong [of rs this h' h cells] by simp

lemma canOccupy_True:
  "canOccupy h this cells rs = Some True \<longleftrightarrow>
     (\<forall>c \<in> set cells. isValidCell (board (h this)) (fst c) (snd c)) \<and>
     (\<forall>r \<in> set rs. r \<noteq> this \<and> isAlive (h r) \<longrightarrow>
        (\<exists>cs. getCells (h r) = Some cs \<and> set cells \<inter> set cs = {}))"
  unfolding canOccupy_def canOccupyLoop_True [symmetric]
  by (cases "\<exists>cell \<in> set cells. \<not> isValidCell (board (h this)) (fst cell) (snd cell)") simp_all

lemma move_step:
  "move h this direction fleet =
     (case offset (h this) direction of
        None \<Rightarrow> None
      | Some d \<Rightarrow>
         (case canMoveTo h this (ship_x (h this) + fst d) (ship_y (h this) + snd d) fleet of
            None \<Rightarrow> None
          | Some ok \<Rightarrow> Some (if ok then (True, moved h this d) else (False, h))))"
  unfolding move_def Let_def offset_def [symmetric] moved_def [symmetric]
  by (simp split: option.split)

lemma rotate_step:
  "rotate h this direction fleet =
     (case canRotateTo h this (turned (orientation (h this)) direction) fleet of
        None \<Rightarrow> None
      | Some ok \<Rightarrow> Some (if ok then (True, rotated h this direction) else (False, h)))"
  unfolding rotate_def Let_def turned_def [symmetric] rotated_def [symmetric]
  by (simp split: option.split)

lemma offset_forward: "offset s ''forward'' = DIRECTION_VECTORS (orientation s)"
  by (cases "DIRECTION_VECTORS (orientation s)") (simp_all add: offset_def)

lemma offset_backward:
  "offset s ''backward'' = map_option (\<lambda>v. (- fst v, - snd v)) (DIRECTION_VECTORS (orientation s))"
  by (simp add: offset_def)

lemma canMoveTo_heap_cong:
  assumes "ship_length (h' this) = ship_length (h this)" "orientation (h' this) = orientation (h this)"
    "board (h' this) = board (h this)" "\<And>r. r \<noteq> this \<Longrightarrow> h' r = h r"
  shows "canMoveTo h' this nx ny fleet = canMoveTo h this nx ny fleet"
proof -
  have "getCellsAt (h' this) nx ny None = getCellsAt (h this) nx ny None"
    by (simp add: getCellsAt_def assms(1,2))
  moreover have "canOccupy h' this cs fleet = canOccupy h this cs fleet" for cs
    by (rule canOccupy_heap_cong) (simp_all add: assms)
  ultimately show ?thesis
    unfolding canMoveTo_def by simp
qed

lemma move_there_and_back:
  assumes placed: "canMoveTo h this (ship_x (h this)) (ship_y (h this)) fleet = Some True"
      and fwd: "move h this ''forward'' fleet = Some (True, h1)"
  shows "move h1 this ''backward'' fleet = Some (True, h)"
proof -
  from fwd obtain v where
    v: "DIRECTION_VECTORS (orientation (h this)) = Some v" and h1: "h1 = moved h this v"
    unfolding move_step offset_forward by (auto split: option.splits if_splits)
  have o: "offset (h1 this) ''backward'' = Some (- fst v, - snd v)"
    by (simp add: offset_backward h1 moved_def v)
  have "canMoveTo h1 this (ship_x (h this)) (ship_y (h this)) fleet
          = canMoveTo h this (ship_x (h this)) (ship_y (h this)) fleet"
    by (rule canMoveTo_heap_cong) (simp_all add: h1 moved_def)
  with placed have c: "canMoveTo h1 this (ship_x (h1 this) + fst (- fst v, - snd v))
          (ship_y (h1 this) + snd (- fst v, - snd v)) fleet = Some True"
    by (simp add: h1 moved_def)
  have restored: "moved h1 this (- fst v, - snd v) = h"
    by (rule ext) (simp add: h1 moved_def)
  show ?thesis
    unfolding move_step o option.case c using restored by simp
qed

lemma rotate_success:
  "rotate h this direction fleet = Some (True, h') \<Longrightarrow> h' = rotated h this direction"
  unfolding rotate_step by (auto split: option.splits if_splits)

lemma turned_four:
  assumes "validOrientation ori"
  shows "turned (turned (turned (turned ori direction) direction) direction) direction = ori"
proof (cases "direction = ''cw''")
  case True
  have t: "turned x direction = (x + 90) smod 360" for x
    using True by (simp add: turned_def)
  from assms show ?thesis
    unfolding t validOrientation_def UP_def RIGHT_def DOWN_def LEFT_def
    by (elim disjE) (simp_all add: signed_modulo_int_def)
next
  case False
  have t: "turned x direction = (x - 90 + 360) smod 360" for x
    using False by (simp add: turned_def)
  from assms show ?thesis
    unfolding t validOrientation_def UP_def RIGHT_def DOWN_def LEFT_def
    by (elim disjE) (simp_all add: signed_modulo_int_def)
qed

lemma rotated_orientation: "orientation (rotated h this direction this) = turned (orientation (h this)) direction"
  by (simp add: rotated_def)

lemma rotate_four:
  assumes v: "validOrientation (orientation (h this))"
      and r1: "rotate h this direction fleet = Some (True, h1)"
      and r2: "rotate h1 this direction fleet = Some (True, h2)"
      and r3: "rotate h2 this direction fleet = Some (True, h3)"
      and r4: "rotate h3 this direction fleet = Some (True, h4)"
  shows "h4 = h"
proof -
  have e: "h1 = rotated h this direction" "h2 = rotated h1 this direction"
    "h3 = rotated h2 this direction" "h4 = rotated h3 this direction"
    using r1 r2 r3 r4 by (simp_all add: rotate_success)
  have "orientation (h4 this) = orientation (h this)"
    unfolding e rotated_orientation by (rule turned_four [OF v])
  moreover have "h4 = h(this := (h this)\<lparr>orientation := orientation (h4 this)\<rparr>)"
    unfolding e by (rule ext) (simp add: rotated_def)
  ultimately show ?thesis by simp
qed

lemmas eval_defs =
  move_def rotate_def canMoveTo_def canRotateTo_def canOccupy_def getCellsAt_def getCells_def trail_def
  DIRECTION_VECTORS_def isValidCell_def isAlive_def newShip_def gameBoard_def GRID_COLS_def GRID_ROWS_def
  UP_def RIGHT_def DOWN_def LEFT_def signed_modulo_int_def upt_rec numeral_nat Let_def

text \<open>
  Claim C7, as stated: four calls of \<open>rotate\<close> in the same direction bring every ship back
  to its orientation and cells. It fails for the length-2 ship with bow (1,0) facing
  right: two counter-clockwise turns succeed (facing up, then left), the third would put
  the stern on (1,-1), off the board, so the third and the fourth call return false and
  the ship stays facing left, on (1,0),(2,0) instead of (1,0),(0,0).
\<close>

theorem rotate_four_times_counterexample:
  "rotate cornerHeap 0 ''ccw'' [0] = Some (True, cornerHeapUp) \<and>
   rotate cornerHeapUp 0 ''ccw'' [0] = Some (True, cornerHeapLeft) \<and>
   rotate cornerHeapLeft 0 ''ccw'' [0] = Some (False, cornerHeapLeft) \<and>
   rotate cornerHeapLeft 0 ''ccw'' [0] = Some (False, cornerHeapLeft) \<and>
   orientation (cornerHeap 0) = RIGHT \<and> orientation (cornerHeapLeft 0) = LEFT \<and> LEFT \<noteq> RIGHT \<and>
   getCells (cornerHeap 0) = Some [(1, 0), (0, 0)] \<and>
   getCells (cornerHeapLeft 0) = Some [(1, 0), (2, 0)]"
  by (simp add: cornerHeap_def cornerHeapUp_def cornerHeapLeft_def eval_defs)

text \<open>
  Claim C7, amended: for a ship of a valid orientation, if each of four calls of \<open>rotate\<close>
  in the same direction succeeds (returns true), the fourth leaves the heap as it was
  before the first: the ship has its original orientation and hence its original cells.
  (A call that fails leaves the ship as it is, so the four calls need not come round.)
\<close>

theorem rotate_four_times:
  assumes "validOrientation (orientation (h this))"
      and "rotate h this direction fleet = Some (True, h1)"
      and "rotate h1 this direction fleet = Some (True, h2)"
      and "rotate h2 this direction fleet = Some (True, h3)"
      and "rotate h3 this direction fleet = Some (True, h4)"
  shows "h4 = h \<and> orientation (h4 this) = orientation (h this) \<and> getCells (h4 this) = getCells (h this)"
  using rotate_four [OF assms] by simp

lemma move_forward_changes_bow:
  assumes "move h this ''forward'' fleet = Some (True, h1)"
  shows "(ship_x (h1 this), ship_y (h1 this)) \<noteq> (ship_x (h this), ship_y (h this))"
proof -
  from assms obtain v where
    v: "DIRECTION_VECTORS (orientation (h this)) = Some v" and h1: "h1 = moved h this v"
    unfolding move_step offset_forward by (auto split: option.splits if_splits)
  from v have "v \<noteq> (0, 0)"
    by (auto simp: DIRECTION_VECTORS_def split: if_splits)
  then show ?thesis
    by (cases v) (simp add: h1 moved_def)
qed

theorem rotate_four_times_witness:
  "validOrientation (orientation (wreckHeap 1)) \<and>
   rotate wreckHeap 1 ''cw'' [0, 1] = Some (True, rotated wreckHeap 1 ''cw'') \<and>
   rotated (rotated (rotated (rotated wreckHeap 1 ''cw'') 1 ''cw'') 1 ''cw'') 1 ''cw'' = wreckHeap"
proof -
  let ?h1 = "rotated wreckHeap 1 ''cw''"
  let ?h2 = "rotated ?h1 1 ''cw''"
  let ?h3 = "rotated ?h2 1 ''cw''"
  let ?h4 = "rotated ?h3 1 ''cw''"
  have v: "validOrientation (orientation (wreckHeap 1))"
    by (simp add: validOrientation_def wreckHeap_def newShip_def)
  have r1: "rotate wreckHeap 1 ''cw'' [0, 1] = Some (True, ?h1)"
    by (simp add: rotate_step turned_def wreckHeap_def eval_defs)
  have r2: "rotate ?h1 1 ''cw'' [0, 1] = Some (True, ?h2)"
    by (simp add: rotate_step rotated_def turned_def wreckHeap_def eval_defs)
  have r3: "rotate ?h2 1 ''cw'' [0, 1] = Some (True, ?h3)"
    by (simp add: rotate_step rotated_def turned_def wreckHeap_def eval_defs)
  have r4: "rotate ?h3 1 ''cw'' [0, 1] = Some (True, ?h4)"
    by (simp add: rotate_step rotated_def turned_def wreckHeap_def eval_defs)
  from rotate_four_times [OF v r1 r2 r3 r4] have "?h4 = wreckHeap" by simp
  with v r1 show ?thesis by simp
qed

subsection \<open>The end of the match\<close>

text \<open>
  Claim C4. \<open>checkGameOver\<close> returns true exactly when some side has no living ship. If the
  enemy side has none, the state becomes \<open>GAME_OVER\<close> and the player is marked the winner;
  if the player side has none while the enemy side still has a living ship, the state
  becomes \<open>GAME_OVER\<close> and the player is marked the loser; if both sides have a living ship
  the result is false and the game record is returned as it was. In particular a side whose
  ships are all at \<open>cannonsPerSide = 0\<close> ends the match with the other side as the winner
  (the enemy side is tested first, as the first part of the claim says, so the player
  side's case takes a living enemy ship).
\<close>

theorem checkGameOver_outcome:
  "(fst (checkGameOver h g) \<longleftrightarrow>
      (\<nexists>s. s \<in> set (playerShips g) \<and> isAlive (h s)) \<or> (\<nexists>s. s \<in> set (enemyShips g) \<and> isAlive (h s))) \<and>
   ((\<nexists>s. s \<in> set (enemyShips g) \<and> isAlive (h s)) \<longrightarrow>
      checkGameOver h g = (True, g\<lparr>state := GAME_OVER, playerWon := True\<rparr>)) \<and>
   ((\<nexists>s. s \<in> set (playerShips g) \<and> isAlive (h s)) \<and> (\<exists>s. s \<in> set (enemyShips g) \<and> isAlive (h s)) \<longrightarrow>
      checkGameOver h g = (True, g\<lparr>state := GAME_OVER, playerWon := False\<rparr>)) \<and>
   ((\<exists>s. s \<in> set (playerShips g) \<and> isAlive (h s)) \<and> (\<exists>s. s \<in> set (enemyShips g) \<and> isAlive (h s)) \<longrightarrow>
      checkGameOver h g = (False, g)) \<and>
   ((\<forall>s \<in> set (enemyShips g). cannonsPerSide (h s) = 0) \<longrightarrow>
      fst (checkGameOver h g) \<and> playerWon (snd (checkGameOver h g)) \<and>
      state (snd (checkGameOver h g)) = GAME_OVER) \<and>
   ((\<forall>s \<in> set (playerShips g). cannonsPerSide (h s) = 0) \<and>
    (\<exists>s. s \<in> set (enemyShips g) \<and> isAlive (h s)) \<longrightarrow>
      fst (checkGameOver h g) \<and> \<not> playerWon (snd (checkGameOver h g)) \<and>
      state (snd (checkGameOver h g)) = GAME_OVER)"
  unfolding checkGameOver_def Let_def isAlive_def by (intro conjI) auto

theorem checkGameOver_outcome_witness:
  "enemyShips duelGame = [0] \<and> cannonsPerSide (spentHeap 0) = 0 \<and>
   checkGameOver spentHeap duelGame = (True, duelGame\<lparr>state := GAME_OVER, playerWon := True\<rparr>)"
proof -
  have d: "\<forall>s \<in> set (enemyShips duelGame). cannonsPerSide (spentHeap s) = 0"
    by (simp add: duelGame_def spentHeap_def)
  then have "\<nexists>s. s \<in> set (enemyShips duelGame) \<and> isAlive (spentHeap s)"
    by (simp add: isAlive_def)
  with checkGameOver_outcome [of spentHeap duelGame]
  have "checkGameOver spentHeap duelGame = (True, duelGame\<lparr>state := GAME_OVER, playerWon := True\<rparr>)"
    by blast
  then show ?thesis by (simp add: duelGame_def spentHeap_def)
qed

text \<open>
  When neither side has a living ship, the enemy side is found empty first and the player
  is marked the winner.
\<close>

lemma checkGameOver_both_sides_empty:
  "(\<nexists>s. s \<in> set (playerShips g) \<and> isAlive (h s)) \<Longrightarrow>
   (\<nexists>s. s \<in> set (enemyShips g) \<and> isAlive (h s)) \<Longrightarrow>
     checkGameOver h g = (True, g\<lparr>state := GAME_OVER, playerWon := True\<rparr>)"
  unfolding checkGameOver_def Let_def by auto

subsection \<open>The AI turn\<close>

text \<open>
  Claim C10. When no ship of \<open>enemyShips\<close> is alive (\<open>cannonsPerSide \<le> 0\<close> for each of
  them), \<open>takeTurn\<close> returns the empty action list and the heap it was given: no ship's
  position, orientation, capacity or flag changes, and no random number is drawn.
\<close>

theorem takeTurn_no_living_ships:
  "(\<forall>s \<in> set es. cannonsPerSide (h s) \<le> 0) \<Longrightarrow> takeTurn b h es ps fleet rng = Some ([], h, rng)"
proof -
  assume "\<forall>s \<in> set es. cannonsPerSide (h s) \<le> 0"
  then have "filter (\<lambda>ship. isAlive (h ship)) es = []"
    by (auto simp: isAlive_def filter_empty_conv)
  then show ?thesis
    by (simp add: takeTurn_def)
qed

theorem takeTurn_no_living_ships_witness:
  "cannonsPerSide (spentHeap 0) \<le> 0 \<and>
   takeTurn gameBoard spentHeap [0] [1] [1, 0] (sconst 0) = Some ([], spentHeap, sconst 0)"
proof -
  have d: "\<forall>s \<in> set [0]. cannonsPerSide (spentHeap s) \<le> 0"
    by (simp add: spentHeap_def)
  have c: "cannonsPerSide (spentHeap 0) \<le> 0"
    by (simp add: spentHeap_def)
  from takeTurn_no_living_ships [OF d, of gameBoard "[1]" "[1, 0]" "sconst 0"] c
  show ?thesis by (intro conjI)
qed

subsection \<open>The trial moves of the AI\<close>

lemma findBestMoveLoop_Cons:
  "findBestMoveLoop b h ship ps fleet bestScore bestMove (mv # mvs) =
     (case trial h ship mv fleet of
        None \<Rightarrow> None
      | Some (success, h1) \<Rightarrow>
          if success
          then (case evaluatePosition b h1 ship ps fleet of
                  None \<Rightarrow> None
                | Some score \<Rightarrow>
                    if score > bestScore
                    then findBestMoveLoop b (restored h h1 ship) ship ps fleet score (Some mv) mvs
                    else findBestMoveLoop b (restored h h1 ship) ship ps fleet bestScore bestMove mvs)
          else findBestMoveLoop b (restored h h1 ship) ship ps fleet bestScore bestMove mvs)"
  unfolding findBestMoveLoop.simps Let_def trial_def [symmetric] restored_def [symmetric]
  by (simp split: option.split prod.split)

lemma move_cases:
  assumes "move h ship d fleet = Some (ok, h1)"
  obtains v where "h1 = moved h ship v" | "h1 = h"
  using assms unfolding move_step by (auto split: option.splits if_splits)

lemma rotate_cases:
  assumes "rotate h ship d fleet = Some (ok, h1)"
  obtains "h1 = rotated h ship d" | "h1 = h"
  using assms unfolding rotate_step by (auto split: option.splits if_splits)

lemma restored_moved: "restored h (moved h ship v) ship = h"
  by (rule ext) (simp add: restored_def moved_def)

lemma restored_rotated: "restored h (rotated h ship d) ship = h"
  by (rule ext) (simp add: restored_def rotated_def)

lemma restored_same: "restored h h ship = h"
  by (rule ext) (simp add: restored_def)

lemma trial_restored:
  assumes "trial h ship mv fleet = Some (ok, h1)"
  shows "restored h h1 ship = h"
proof -
  consider (m) "move h ship (dirArg mv) fleet = Some (ok, h1)"
    | (r) "rotate h ship (dirArg mv) fleet = Some (ok, h1)"
    | (n) "h1 = h"
    using assms unfolding trial_def by (auto split: if_splits)
  then show ?thesis
  proof cases
    case m
    then show ?thesis by (rule move_cases) (simp_all add: restored_moved restored_same)
  next
    case r
    then show ?thesis by (rule rotate_cases) (simp_all add: restored_rotated restored_same)
  next
    case n
    then show ?thesis by (simp add: restored_same)
  qed
qed

lemma findBestMoveLoop_heap:
  "findBestMoveLoop b h ship ps fleet bestScore bestMove mvs = Some (best, h') \<Longrightarrow> h' = h"
proof (induction mvs arbitrary: bestScore bestMove)
  case Nil
  then show ?case by simp
next
  case (Cons mv mvs)
  from Cons.prems obtain ok h1 where t: "trial h ship mv fleet = Some (ok, h1)"
    unfolding findBestMoveLoop_Cons by (auto split: option.splits)
  have r: "restored h h1 ship = h"
    by (rule trial_restored [OF t])
  from Cons.prems obtain bs bm where
    "findBestMoveLoop b h ship ps fleet bs bm mvs = Some (best, h')"
    unfolding findBestMoveLoop_Cons t by (auto simp: r split: option.splits if_splits)
  then show ?case by (rule Cons.IH)
qed

lemma findBestMove_heap:
  "findBestMove b h ship ps fleet rng = Some (best, h', rng') \<Longrightarrow> h' = h"
  unfolding findBestMove_def by (auto split: prod.splits dest: findBestMoveLoop_heap)

lemma getCells_total: "validOrientation (orientation s) \<Longrightarrow> \<exists>cs. getCells s = Some cs"
  by (simp add: getCells_valid)

lemma getCellsAt_total:
  "validOrientation (case ori of None \<Rightarrow> orientation s | Some k \<Rightarrow> k) \<Longrightarrow>
     \<exists>cs. getCellsAt s nx ny ori = Some cs"
  by (auto simp: getCellsAt_def trail_def Let_def dest: validOrientation_dir)

lemma canOccupyLoop_total:
  "wellFormed h \<Longrightarrow> \<exists>ok. canOccupyLoop h this cells rs = Some ok"
proof (induction rs)
  case Nil
  show ?case by auto
next
  case (Cons r rs)
  from Cons.prems obtain cs where "getCells (h r) = Some cs"
    using getCells_total by (auto simp: wellFormed_def)
  with Cons show ?case
    unfolding canOccupyLoop_Cons by auto
qed

lemma canOccupy_total: "wellFormed h \<Longrightarrow> \<exists>ok. canOccupy h this cells rs = Some ok"
  unfolding canOccupy_def using canOccupyLoop_total [of h this cells rs] by auto

lemma offset_total: "validOrientation (orientation s) \<Longrightarrow> \<exists>d. offset s direction = Some d"
  by (auto simp: offset_def dest: validOrientation_dir)

lemma wellFormed_moved: "wellFormed h \<Longrightarrow> wellFormed (moved h this d)"
  by (simp add: wellFormed_def moved_def)

lemma validOrientation_turned: "validOrientation ori \<Longrightarrow> validOrientation (turned ori d)"
proof (cases "d = ''cw''")
  case True
  assume "validOrientation ori"
  then show ?thesis
    unfolding turned_def validOrientation_def UP_def RIGHT_def DOWN_def LEFT_def using True
    by (elim disjE) (simp_all add: signed_modulo_int_def)
next
  case False
  assume "validOrientation ori"
  then show ?thesis
    unfolding turned_def validOrientation_def UP_def RIGHT_def DOWN_def LEFT_def using False
    by (elim disjE) (simp_all add: signed_modulo_int_def)
qed

lemma wellFormed_rotated: "wellFormed h \<Longrightarrow> wellFormed (rotated h this d)"
  by (simp add: wellFormed_def rotated_def validOrientation_turned)

lemma move_total:
  assumes "wellFormed h"
  shows "\<exists>ok h1. move h this direction fleet = Some (ok, h1) \<and> wellFormed h1"
proof -
  from assms have v: "validOrientation (orientation (h this))"
    by (simp add: wellFormed_def)
  from offset_total [OF v] obtain d where d: "offset (h this) direction = Some d"
    by blast
  from v obtain cs where
    "getCellsAt (h this) (ship_x (h this) + fst d) (ship_y (h this) + snd d) None = Some cs"
    using getCellsAt_total [where ori = None and s = "h this"] by auto
  moreover from canOccupy_total [OF assms] obtain ok where "canOccupy h this cs fleet = Some ok"
    by blast
  ultimately have
    "canMoveTo h this (ship_x (h this) + fst d) (ship_y (h this) + snd d) fleet = Some ok"
    by (simp add: canMoveTo_def)
  then show ?thesis
    unfolding move_step d using assms by (auto simp: wellFormed_moved)
qed

lemma rotate_total:
  assumes "wellFormed h"
  shows "\<exists>ok h1. rotate h this direction fleet = Some (ok, h1) \<and> wellFormed h1"
proof -
  from assms have "validOrientation (turned (orientation (h this)) direction)"
    by (simp add: wellFormed_def validOrientation_turned)
  then obtain cs where
    "getCellsAt (h this) (ship_x (h this)) (ship_y (h this))
       (Some (turned (orientation (h this)) direction)) = Some cs"
    using getCellsAt_total [where ori = "Some (turned (orientation (h this)) direction)"] by force
  moreover from canOccupy_total [OF assms] obtain ok where "canOccupy h this cs fleet = Some ok"
    by blast
  ultimately have "canRotateTo h this (turned (orientation (h this)) direction) fleet = Some ok"
    by (simp add: canRotateTo_def)
  then show ?thesis
    unfolding rotate_step using assms by (auto simp: wellFormed_rotated)
qed

lemma trial_total:
  "wellFormed h \<Longrightarrow> \<exists>ok h1. trial h ship mv fleet = Some (ok, h1) \<and> wellFormed h1"
  unfolding trial_def using move_total rotate_total by auto

lemma getSideFireZones_total:
  "validOrientation (orientation s) \<Longrightarrow> \<exists>zs. getSideFireZones b s = Some zs"
  using getSideFireZones_set by blast

lemma targetsLoop_total:
  "wellFormed h \<Longrightarrow> \<exists>ts. targetsLoop h attacker zs rs = Some ts"
proof (induction rs)
  case Nil
  show ?case by simp
next
  case (Cons r rs)
  from Cons.prems obtain cs where "getCells (h r) = Some cs"
    using getCells_total by (auto simp: wellFormed_def)
  with Cons show ?case by (auto simp: Let_def)
qed

lemma getTargetsInRange_total:
  "wellFormed h \<Longrightarrow> \<exists>ts. getTargetsInRange b h attacker rs = Some ts"
  unfolding getTargetsInRange_def
  using getSideFireZones_total [of "h attacker" b] targetsLoop_total [of h attacker _ rs]
  by (auto simp: wellFormed_def)

lemma getFireZones_total:
  "validOrientation (orientation s) \<Longrightarrow> \<exists>zs. getFireZones s k = Some zs"
  unfolding getFireZones_def using getCells_total [of s] by auto

lemma threatLoop_total:
  "wellFormed h \<Longrightarrow> \<exists>v. threatLoop h ship score ps = Some v"
proof (induction ps arbitrary: score)
  case Nil
  show ?case by simp
next
  case (Cons p ps)
  from Cons.prems obtain zs cs where "getFireZones (h p) 3 = Some zs" "getCells (h ship) = Some cs"
    using getFireZones_total getCells_total by (metis wellFormed_def)
  with Cons show ?case by (simp add: Let_def)
qed

lemma evaluatePosition_total:
  assumes "wellFormed h"
  shows "\<exists>v. evaluatePosition b h ship ps fleet = Some v"
proof -
  from getTargetsInRange_total [OF assms] obtain ts where
    ts: "getTargetsInRange b h ship fleet = Some ts"
    by blast
  from threatLoop_total [OF assms] obtain v where
    "threatLoop h ship (foldl (\<lambda>score (target, hitCells). score + int (length hitCells) * 10) 0 ts) ps
       = Some v"
    by blast
  with ts show ?thesis
    by (simp add: evaluatePosition_def Let_def)
qed

lemma findBestMoveLoop_total:
  "wellFormed h \<Longrightarrow> \<exists>best. findBestMoveLoop b h ship ps fleet bestScore bestMove mvs = Some (best, h)"
proof (induction mvs arbitrary: bestScore bestMove)
  case Nil
  show ?case by simp
next
  case (Cons mv mvs)
  from trial_total [OF Cons.prems] obtain ok h1 where
    t: "trial h ship mv fleet = Some (ok, h1)" and w: "wellFormed h1"
    by blast
  have r: "restored h h1 ship = h"
    by (rule trial_restored [OF t])
  from evaluatePosition_total [OF w] obtain v where e: "evaluatePosition b h1 ship ps fleet = Some v"
    by blast
  show ?case
    unfolding findBestMoveLoop_Cons t using Cons.IH [OF Cons.prems] by (simp add: r e)
qed

lemma findBestMove_total:
  "wellFormed h \<Longrightarrow> \<exists>best rng'. findBestMove b h ship ps fleet rng = Some (best, h, rng')"
  unfolding findBestMove_def
  using findBestMoveLoop_total [of h b ship ps fleet "-1" None]
  by (auto split: prod.splits) 


text \<open>
  Claim C9. Whatever candidate actions are tried, in whatever order, \<open>findBestMove\<close>
  returns the heap it was given: after every trial, successful or not, the saved
  \<open>(x, y, orientation)\<close> is written back, so the ship has its pre-call pose (and no other
  ship is touched). This holds for the candidate loop over any list of actions and any
  running best score, and for \<open>findBestMove\<close> with any random source; and on a heap whose
  ships all have one of the four orientations \<open>findBestMove\<close> does return.
\<close>

theorem findBestMove_restores_state:
  "(findBestMoveLoop b h ship ps fleet bestScore bestMove mvs = Some (best, h') \<longrightarrow>
      h' = h \<and> ship_x (h' ship) = ship_x (h ship) \<and> ship_y (h' ship) = ship_y (h ship) \<and>
      orientation (h' ship) = orientation (h ship)) \<and>
   (findBestMove b h ship ps fleet rng = Some (best, h', rng') \<longrightarrow>
      h' = h \<and> ship_x (h' ship) = ship_x (h ship) \<and> ship_y (h' ship) = ship_y (h ship) \<and>
      orientation (h' ship) = orientation (h ship)) \<and>
   (wellFormed h \<longrightarrow> (\<exists>mv r. findBestMove b h ship ps fleet rng = Some (mv, h, r)))"
proof (intro conjI impI)
  assume "findBestMoveLoop b h ship ps fleet bestScore bestMove mvs = Some (best, h')"
  then have "h' = h" by (rule findBestMoveLoop_heap)
  then show "h' = h" "ship_x (h' ship) = ship_x (h ship)" "ship_y (h' ship) = ship_y (h ship)"
    "orientation (h' ship) = orientation (h ship)"
    by simp_all
next
  assume "findBestMove b h ship ps fleet rng = Some (best, h', rng')"
  then have "h' = h" by (rule findBestMove_heap)
  then show "h' = h" "ship_x (h' ship) = ship_x (h ship)" "ship_y (h' ship) = ship_y (h ship)"
    "orientation (h' ship) = orientation (h ship)"
    by simp_all
next
  assume "wellFormed h"
  then show "\<exists>mv r. findBestMove b h ship ps fleet rng = Some (mv, h, r)"
    by (rule findBestMove_total)
qed

theorem findBestMove_restores_state_witness:
  "findBestMoveLoop gameBoard skirmishHeap 2 [0, 1] [0, 1, 2] (-1) None candidateMoves
     = Some (Some (Action ''move'' (Some ''forward'')), skirmishHeap) \<and>
   wellFormed skirmishHeap \<and>
   (\<exists>mv r. findBestMove gameBoard skirmishHeap 2 [0, 1] [0, 1, 2] (sconst 0) = Some (mv, skirmishHeap, r))"
proof -
  note t = findBestMove_restores_state [of gameBoard skirmishHeap 2 "[0, 1]" "[0, 1, 2]" "-1" None
      candidateMoves "Some (Action ''move'' (Some ''forward''))" _ "sconst 0"]
  have "map_option fst (findBestMoveLoop gameBoard skirmishHeap 2 [0, 1] [0, 1, 2] (-1) None candidateMoves)
          = Some (Some (Action ''move'' (Some ''forward'')))"
    by code_simp
  then obtain h' where
    l: "findBestMoveLoop gameBoard skirmishHeap 2 [0, 1] [0, 1, 2] (-1) None candidateMoves
          = Some (Some (Action ''move'' (Some ''forward'')), h')"
    by auto
  with t [of h'] have "h' = skirmishHeap" by blast
  with l have 1: "findBestMoveLoop gameBoard skirmishHeap 2 [0, 1] [0, 1, 2] (-1) None candidateMoves
     = Some (Some (Action ''move'' (Some ''forward'')), skirmishHeap)"
    by simp
  have 2: "wellFormed skirmishHeap"
    by (simp add: wellFormed_def skirmishHeap_def validOrientation_def newShip_def)
  with t have 3: "\<exists>mv r. findBestMove gameBoard skirmishHeap 2 [0, 1] [0, 1, 2] (sconst 0)
      = Some (mv, skirmishHeap, r)"
    by blast
  from 1 2 3 show ?thesis by (intro conjI)
qed

subsection \<open>The broadside\<close>

lemma hitCellsOf_empty: "hitCellsOf zs cs = [] \<longleftrightarrow> \<not> (\<exists>c \<in> set cs. c \<in> set zs)"
  by (auto simp: hitCellsOf_def filter_empty_conv prod_eq_iff)

lemma takeDamage_one:
  "takeDamage h r 1 =
     (max 0 (cannonsPerSide (h r) - 1) \<le> 0, h(r := (h r)\<lparr>cannonsPerSide := max 0 (cannonsPerSide (h r) - 1)\<rparr>))"
  by (simp add: takeDamage_def Let_def)

lemma broadsideLoop_result:
  assumes "distinct (map fst ts)" "\<forall>t \<in> set ts. snd t \<noteq> []"
  shows "broadsideLoop h ts =
           (map (\<lambda>t. (fst t, max 0 (cannonsPerSide (h (fst t)) - 1) \<le> 0)) ts,
            (\<lambda>r. if r \<in> fst ` set ts
                 then (h r)\<lparr>cannonsPerSide := max 0 (cannonsPerSide (h r) - 1)\<rparr> else h r))"
  using assms
proof (induction ts arbitrary: h)
  case Nil
  show ?case by simp
next
  case (Cons t ts)
  obtain r hc where t: "t = (r, hc)" by (cases t)
  let ?h1 = "h(r := (h r)\<lparr>cannonsPerSide := max 0 (cannonsPerSide (h r) - 1)\<rparr>)"
  from Cons.prems t have hc: "hc \<noteq> []" and nr: "r \<notin> fst ` set ts" and d: "distinct (map fst ts)"
    and ne: "\<forall>t \<in> set ts. snd t \<noteq> []"
    by auto
  have same: "?h1 (fst u) = h (fst u)" if "u \<in> set ts" for u
    using that nr by auto
  have m: "map (\<lambda>t. (fst t, max 0 (cannonsPerSide (?h1 (fst t)) - 1) \<le> 0)) ts
         = map (\<lambda>t. (fst t, max 0 (cannonsPerSide (h (fst t)) - 1) \<le> 0)) ts"
    by (rule map_cong [OF refl]) (simp only: same)
  have hp: "(\<lambda>x. if x \<in> fst ` set ts
                 then (?h1 x)\<lparr>cannonsPerSide := max 0 (cannonsPerSide (?h1 x) - 1)\<rparr> else ?h1 x)
         = (\<lambda>x. if x \<in> fst ` set (t # ts)
                 then (h x)\<lparr>cannonsPerSide := max 0 (cannonsPerSide (h x) - 1)\<rparr> else h x)"
    using nr by (intro ext) (auto simp: t)
  have "broadsideLoop h (t # ts) =
          (let (hits, h'') = broadsideLoop ?h1 ts
           in ((r, max 0 (cannonsPerSide (h r) - 1) \<le> 0) # hits, h''))"
    using hc by (simp add: t takeDamage_one)
  also have "\<dots> = ((r, max 0 (cannonsPerSide (h r) - 1) \<le> 0)
                       # map (\<lambda>t. (fst t, max 0 (cannonsPerSide (h (fst t)) - 1) \<le> 0)) ts,
                    (\<lambda>x. if x \<in> fst ` set (t # ts)
                 then (h x)\<lparr>cannonsPerSide := max 0 (cannonsPerSide (h x) - 1)\<rparr> else h x))"
    unfolding Cons.IH [OF d ne] m hp by simp
  finally show ?case by (simp add: t)
qed

lemma targetsLoop_result:
  assumes "wellFormed h"
  shows "\<exists>ts. targetsLoop h attacker zs rs = Some ts \<and>
           map fst ts = filter (\<lambda>r. team (h r) \<noteq> team (h attacker) \<and> isAlive (h r) \<and>
                                   (\<exists>cs. getCells (h r) = Some cs \<and> (\<exists>c \<in> set cs. c \<in> set zs))) rs \<and>
           (\<forall>t \<in> set ts. snd t \<noteq> [])"
proof (induction rs)
  case Nil
  show ?case by simp
next
  case (Cons r rs)
  from assms obtain cs where cs: "getCells (h r) = Some cs"
    using getCells_total by (auto simp: wellFormed_def)
  from Cons obtain ts where ts: "targetsLoop h attacker zs rs = Some ts"
    "map fst ts = filter (\<lambda>r. team (h r) \<noteq> team (h attacker) \<and> isAlive (h r) \<and>
                                   (\<exists>cs. getCells (h r) = Some cs \<and> (\<exists>c \<in> set cs. c \<in> set zs))) rs"
    "\<forall>t \<in> set ts. snd t \<noteq> []"
    by blast
  show ?case
  proof (cases "r = attacker \<or> team (h r) = team (h attacker) \<or> \<not> isAlive (h r)")
    case True
    with ts show ?thesis by auto
  next
    case False
    with ts cs show ?thesis
      by (cases "hitCellsOf zs cs = []") (auto simp: Let_def hitCellsOf_empty)
  qed
qed

lemma fireBroadside_result:
  assumes c: "cannonsPerSide (h attacker) > 0" and d: "distinct fleet" and w: "wellFormed h"
  shows "fireBroadside b h attacker fleet =
           Some (map (\<lambda>r. (r, cannonsPerSide (h r) - 1 \<le> 0)) (filter (isTarget b h attacker) fleet),
                 (\<lambda>r. if r \<in> set fleet \<and> isTarget b h attacker r then hitOnce (h r) else h r))"
proof -
  from w have "validOrientation (orientation (h attacker))"
    by (simp add: wellFormed_def)
  from getSideFireZones_total [OF this] obtain zs where zs: "getSideFireZones b (h attacker) = Some zs"
    by blast
  let ?T = "\<lambda>r. team (h r) \<noteq> team (h attacker) \<and> isAlive (h r) \<and>
               (\<exists>cs. getCells (h r) = Some cs \<and> (\<exists>c \<in> set cs. c \<in> set zs))"
  have T: "?T = isTarget b h attacker"
    by (intro ext) (auto simp: isTarget_def zs split: option.splits)
  from targetsLoop_result [OF w] obtain ts where
    ts: "targetsLoop h attacker zs fleet = Some ts" "map fst ts = filter ?T fleet"
      "\<forall>t \<in> set ts. snd t \<noteq> []"
    by blast
  have dt: "distinct (map fst ts)"
    unfolding ts(2) using d by simp
  have alive: "max 0 (cannonsPerSide (h r) - 1) = cannonsPerSide (h r) - 1" if "?T r" for r
    using that by (simp add: isAlive_def)
  have f: "fst ` set ts = {r \<in> set fleet. ?T r}"
  proof -
    have "fst ` set ts = set (map fst ts)" by simp
    also have "\<dots> = set (filter ?T fleet)" by (simp only: ts(2))
    also have "\<dots> = {r \<in> set fleet. ?T r}" by simp
    finally show ?thesis .
  qed
  have hits: "map (\<lambda>t. (fst t, max 0 (cannonsPerSide (h (fst t)) - 1) \<le> 0)) ts
            = map (\<lambda>r. (r, cannonsPerSide (h r) - 1 \<le> 0)) (filter ?T fleet)"
  proof -
    have "map (\<lambda>t. (fst t, max 0 (cannonsPerSide (h (fst t)) - 1) \<le> 0)) ts
            = map (\<lambda>r. (r, max 0 (cannonsPerSide (h r) - 1) \<le> 0)) (map fst ts)"
      by (simp add: comp_def)
    also have "\<dots> = map (\<lambda>r. (r, cannonsPerSide (h r) - 1 \<le> 0)) (filter ?T fleet)"
      unfolding ts(2) by (rule map_cong [OF refl]) (simp add: isAlive_def)
    finally show ?thesis .
  qed
  have heap: "(\<lambda>r. if r \<in> fst ` set ts
                 then (h r)\<lparr>cannonsPerSide := max 0 (cannonsPerSide (h r) - 1)\<rparr> else h r)
            = (\<lambda>r. if r \<in> set fleet \<and> isTarget b h attacker r then hitOnce (h r) else h r)"
  proof (rule ext)
    fix r
    have "isTarget b h attacker r = ?T r"
      by (auto simp: isTarget_def zs split: option.splits)
    then show "(if r \<in> fst ` set ts
                 then (h r)\<lparr>cannonsPerSide := max 0 (cannonsPerSide (h r) - 1)\<rparr> else h r)
            = (if r \<in> set fleet \<and> isTarget b h attacker r then hitOnce (h r) else h r)"
      unfolding f by (auto simp: hitOnce_def isAlive_def)
  qed
  have "fireBroadside b h attacker fleet = Some (broadsideLoop h ts)"
    using c by (simp add: fireBroadside_def getTargetsInRange_def zs ts(1))
  then show ?thesis
    unfolding broadsideLoop_result [OF dt ts(3)] hits heap T .
qed


text \<open>
  Claim C3. For an attacker with \<open>cannonsPerSide > 0\<close> (in a fleet without repeated
  references whose ships have valid orientations), \<open>fireBroadside\<close> returns one entry
  \<open>(ship, destroyed)\<close> for every target, in the order of \<open>allShips\<close>, where the targets are
  the living ships of the other team with at least one occupied cell in the attacker's
  narrow fire zone; in the new heap every target has lost exactly one cannon per side,
  however many of its cells are in the zone, and every other ship is unchanged.
\<close>

theorem fireBroadside_once_per_target:
  assumes "cannonsPerSide (h attacker) > 0" and "distinct fleet" and "wellFormed h"
  shows "\<exists>h'. fireBroadside b h attacker fleet =
                Some (map (\<lambda>r. (r, cannonsPerSide (h r) - 1 \<le> 0))
                        (filter (isTarget b h attacker) fleet), h') \<and>
              (\<forall>r. h' r = (if r \<in> set fleet \<and> isTarget b h attacker r
                             then (h r)\<lparr>cannonsPerSide := cannonsPerSide (h r) - 1\<rparr> else h r))"
  unfolding fireBroadside_result [OF assms] by (simp add: hitOnce_def)

theorem fireBroadside_once_per_target_witness:
  "cannonsPerSide (broadsideHeap 0) > 0 \<and> distinct [0, 1 :: nat] \<and> wellFormed broadsideHeap \<and>
   map_option (map (\<lambda>t. (fst t, length (snd t)))) (getTargetsInRange gameBoard broadsideHeap 0 [0, 1])
     = Some [(1, 2)] \<and>
   (\<exists>h'. fireBroadside gameBoard broadsideHeap 0 [0, 1] = Some ([(1, False)], h') \<and>
         cannonsPerSide (broadsideHeap 1) = 2 \<and> cannonsPerSide (h' 1) = 1 \<and>
         h' 0 = broadsideHeap 0)"
proof -
  have c: "cannonsPerSide (broadsideHeap 0) > 0"
    by (simp add: broadsideHeap_def newShip_def)
  have d: "distinct [0, 1 :: nat]"
    by simp
  have w: "wellFormed broadsideHeap"
    by (simp add: wellFormed_def broadsideHeap_def validOrientation_def newShip_def)
  have t0: "\<not> isTarget gameBoard broadsideHeap 0 0"
    by (simp add: isTarget_def)
  have t1: "isTarget gameBoard broadsideHeap 0 1"
    by code_simp
  have n: "map_option (map (\<lambda>t. (fst t, length (snd t))))
             (getTargetsInRange gameBoard broadsideHeap 0 [0, 1]) = Some [(1, 2)]"
    by code_simp
  have k: "cannonsPerSide (broadsideHeap 1) = 2"
    by (simp add: broadsideHeap_def newShip_def)
  from fireBroadside_once_per_target [OF c d w, of gameBoard] obtain h' where
    "fireBroadside gameBoard broadsideHeap 0 [0, 1] =
       Some (map (\<lambda>r. (r, cannonsPerSide (broadsideHeap r) - 1 \<le> 0))
               (filter (isTarget gameBoard broadsideHeap 0) [0, 1]), h')"
    and h': "\<forall>r. h' r = (if r \<in> set [0, 1] \<and> isTarget gameBoard broadsideHeap 0 r
                 then (broadsideHeap r)\<lparr>cannonsPerSide := cannonsPerSide (broadsideHeap r) - 1\<rparr>
                 else broadsideHeap r)"
    by blast
  then have f: "fireBroadside gameBoard broadsideHeap 0 [0, 1] = Some ([(1, False)], h')"
    using t0 t1 k by simp
  from h' have "cannonsPerSide (h' 1) = 1" "h' 0 = broadsideHeap 0"
    using t0 t1 k by simp_all
  with f k have "\<exists>h'. fireBroadside gameBoard broadsideHeap 0 [0, 1] = Some ([(1, False)], h') \<and>
         cannonsPerSide (broadsideHeap 1) = 2 \<and> cannonsPerSide (h' 1) = 1 \<and>
         h' 0 = broadsideHeap 0"
    by blast
  with c d w n show ?thesis by (intro conjI)
qed

subsection \<open>The placement invariant\<close>

lemma case_option_False:
  "(case x of None \<Rightarrow> False | Some v \<Rightarrow> P v) \<longleftrightarrow> (\<exists>v. x = Some v \<and> P v)"
  by (cases x) simp_all

lemma placementOK_iff:
  "placementOK h fleet \<longleftrightarrow>
     (\<forall>r \<in> set fleet. isAlive (h r) \<longrightarrow>
        (\<exists>cs. getCells (h r) = Some cs \<and>
              (\<forall>c \<in> set cs. isValidCell (board (h r)) (fst c) (snd c)) \<and>
              (\<forall>r' \<in> set fleet. r' \<noteq> r \<and> isAlive (h r') \<longrightarrow>
                 (\<exists>cs'. getCells (h r') = Some cs' \<and> set cs \<inter> set cs' = {}))))"
  unfolding placementOK_def case_option_False ..

lemma damageOnly_refl: "damageOnly h h"
  by (simp add: damageOnly_def)

lemma damageOnly_trans: "damageOnly h h1 \<Longrightarrow> damageOnly h1 h2 \<Longrightarrow> damageOnly h h2"
  by (simp add: damageOnly_def)

lemma damageOnly_takeDamage: "damageOnly h (snd (takeDamage h r 1))"
  by (auto simp: damageOnly_def takeDamage_one getCells_def isAlive_def)

lemma placementOK_damageOnly:
  assumes "damageOnly h h'" "placementOK h fleet"
  shows "placementOK h' fleet"
proof -
  have "isAlive (h r)" "getCells (h' r) = getCells (h r)" "board (h' r) = board (h r)"
    if "isAlive (h' r)" for r
    using that assms(1) by (simp_all add: damageOnly_def)
  with assms(2) show ?thesis
    unfolding placementOK_iff by (metis (no_types, lifting))
qed

lemma fireLoop_skip:
  "r = attacker \<or> team (h r) = team (h attacker) \<or> \<not> isAlive (h r) \<Longrightarrow>
     fireLoop h attacker c (r # rs) = fireLoop h attacker c rs"
  by auto

lemma fireLoop_look:
  "\<not> (r = attacker \<or> team (h r) = team (h attacker) \<or> \<not> isAlive (h r)) \<Longrightarrow>
     fireLoop h attacker c (r # rs) =
       (case getCells (h r) of
          None \<Rightarrow> None
        | Some cells \<Rightarrow>
            if (\<exists>cell \<in> set cells. fst cell = fst c \<and> snd cell = snd c)
            then Some ((Some r, fst (takeDamage h r 1)), snd (takeDamage h r 1))
            else fireLoop h attacker c rs)"
  by (auto split: option.splits prod.splits)

lemma fireLoop_damageOnly:
  "fireLoop h attacker c rs = Some (res, h') \<Longrightarrow> damageOnly h h'"
proof (induction rs)
  case Nil
  then show ?case by (simp add: damageOnly_refl)
next
  case (Cons r rs)
  show ?case
  proof (cases "r = attacker \<or> team (h r) = team (h attacker) \<or> \<not> isAlive (h r)")
    case True
    from Cons.prems have "fireLoop h attacker c rs = Some (res, h')"
      unfolding fireLoop_skip [OF True] .
    then show ?thesis by (rule Cons.IH)
  next
    case False
    note look = Cons.prems [unfolded fireLoop_look [OF False]]
    then obtain cs where cs: "getCells (h r) = Some cs"
      by (cases "getCells (h r)") simp_all
    show ?thesis
    proof (cases "\<exists>cell \<in> set cs. fst cell = fst c \<and> snd cell = snd c")
      case True
      with look cs have "h' = snd (takeDamage h r 1)"
        by simp
      then show ?thesis by (simp add: damageOnly_takeDamage)
    next
      case no: False
      with look cs have "fireLoop h attacker c rs = Some (res, h')"
        by simp
      then show ?thesis by (rule Cons.IH)
    qed
  qed
qed

lemma fire_damageOnly: "fire b h r c fleet = Some (res, h') \<Longrightarrow> damageOnly h h'"
  unfolding fire_def
  by (auto simp: Let_def damageOnly_refl split: bind_splits if_splits dest: fireLoop_damageOnly)

lemma broadsideLoop_damageOnly: "damageOnly h (snd (broadsideLoop h ts))"
proof (induction ts arbitrary: h)
  case Nil
  show ?case by (simp add: damageOnly_refl)
next
  case (Cons t ts)
  obtain r hc where t: "t = (r, hc)" by (cases t)
  show ?case
  proof (cases "hc = []")
    case True
    then show ?thesis by (simp add: t Cons.IH)
  next
    case False
    have "damageOnly h (snd (takeDamage h r 1))"
      by (rule damageOnly_takeDamage)
    moreover have "damageOnly (snd (takeDamage h r 1)) (snd (broadsideLoop (snd (takeDamage h r 1)) ts))"
      by (rule Cons.IH)
    ultimately have "damageOnly h (snd (broadsideLoop (snd (takeDamage h r 1)) ts))"
      by (rule damageOnly_trans)
    with False show ?thesis
      by (auto simp: t split: prod.splits)
  qed
qed

lemma fireBroadside_damageOnly:
  "fireBroadside b h r fleet = Some (hits, h') \<Longrightarrow> damageOnly h h'"
  unfolding fireBroadside_def
  using broadsideLoop_damageOnly
  by (auto simp: damageOnly_refl split: if_splits bind_splits) (metis snd_conv)

lemma placementOK_repose:
  assumes inv: "placementOK h fleet"
      and b: "board s' = board (h r)" and a: "isAlive s' = isAlive (h r)"
      and cs: "getCells s' = Some cs" and ok: "canOccupy h r cs fleet = Some True"
  shows "placementOK (h(r := s')) fleet"
  unfolding placementOK_iff
proof (intro ballI impI)
  let ?h' = "h(r := s')"
  from ok have valid: "\<forall>c \<in> set cs. isValidCell (board (h r)) (fst c) (snd c)"
    and free: "\<And>q. q \<in> set fleet \<Longrightarrow> q \<noteq> r \<Longrightarrow> isAlive (h q) \<Longrightarrow>
                 \<exists>cs'. getCells (h q) = Some cs' \<and> set cs \<inter> set cs' = {}"
    unfolding canOccupy_True by auto
  fix q assume q: "q \<in> set fleet" and alive: "isAlive (?h' q)"
  show "\<exists>cs. getCells (?h' q) = Some cs \<and>
              (\<forall>c \<in> set cs. isValidCell (board (?h' q)) (fst c) (snd c)) \<and>
              (\<forall>r' \<in> set fleet. r' \<noteq> q \<and> isAlive (?h' r') \<longrightarrow>
                 (\<exists>cs'. getCells (?h' r') = Some cs' \<and> set cs \<inter> set cs' = {}))"
  proof (cases "q = r")
    case True
    have "\<exists>cs'. getCells (?h' r') = Some cs' \<and> set cs \<inter> set cs' = {}"
      if "r' \<in> set fleet" "r' \<noteq> q" "isAlive (?h' r')" for r'
      using that True free [of r'] by simp
    with True cs valid b show ?thesis by auto
  next
    case False
    with alive have aq: "isAlive (h q)" by simp
    from inv q aq obtain cq where
      cq: "getCells (h q) = Some cq" "\<forall>c \<in> set cq. isValidCell (board (h q)) (fst c) (snd c)"
      and others: "\<And>r'. r' \<in> set fleet \<Longrightarrow> r' \<noteq> q \<Longrightarrow> isAlive (h r') \<Longrightarrow>
                 \<exists>cs'. getCells (h r') = Some cs' \<and> set cq \<inter> set cs' = {}"
      unfolding placementOK_iff by blast
    have "\<exists>cs'. getCells (?h' r') = Some cs' \<and> set cq \<inter> set cs' = {}"
      if r': "r' \<in> set fleet" "r' \<noteq> q" "isAlive (?h' r')" for r'
    proof (cases "r' = r")
      case True
      from free [OF q False aq] cq(1) have "set cs \<inter> set cq = {}" by simp
      then have "set cq \<inter> set cs = {}" by blast
      with True cs show ?thesis by simp
    next
      case False
      with r' others [of r'] show ?thesis by simp
    qed
    with False cq show ?thesis by auto
  qed
qed

lemma move_outcome:
  assumes "move h r direction fleet = Some (ok, h')"
  shows "h' = h \<or> (\<exists>d. h' = moved h r d \<and>
            canMoveTo h r (ship_x (h r) + fst d) (ship_y (h r) + snd d) fleet = Some True)"
  using assms unfolding move_step by (auto split: option.splits if_splits)

lemma rotate_outcome:
  assumes "rotate h r direction fleet = Some (ok, h')"
  shows "h' = h \<or> (h' = rotated h r direction \<and>
            canRotateTo h r (turned (orientation (h r)) direction) fleet = Some True)"
  using assms unfolding rotate_step by (auto split: option.splits if_splits)

lemma placementOK_move:
  assumes "placementOK h fleet" "move h r direction fleet = Some (ok, h')"
  shows "placementOK h' fleet"
proof -
  from move_outcome [OF assms(2)] consider "h' = h"
    | d where "h' = moved h r d"
        "canMoveTo h r (ship_x (h r) + fst d) (ship_y (h r) + snd d) fleet = Some True"
    by blast
  then show ?thesis
  proof cases
    case 1
    with assms(1) show ?thesis by simp
  next
    case 2
    from 2(2) obtain cs where
      cs: "getCellsAt (h r) (ship_x (h r) + fst d) (ship_y (h r) + snd d) None = Some cs"
        "canOccupy h r cs fleet = Some True"
      by (auto simp: canMoveTo_def split: bind_splits)
    let ?s = "(h r)\<lparr>ship_x := ship_x (h r) + fst d, ship_y := ship_y (h r) + snd d\<rparr>"
    have "getCells ?s = Some cs"
      using cs(1) by (simp add: getCells_def getCellsAt_def)
    then have "placementOK (h(r := ?s)) fleet"
      by (intro placementOK_repose [OF assms(1) _ _ _ cs(2)]) (simp_all add: isAlive_def)
    then show ?thesis by (simp add: 2(1) moved_def)
  qed
qed

lemma placementOK_rotate:
  assumes "placementOK h fleet" "rotate h r direction fleet = Some (ok, h')"
  shows "placementOK h' fleet"
proof -
  from rotate_outcome [OF assms(2)] consider "h' = h"
    | "h' = rotated h r direction"
        "canRotateTo h r (turned (orientation (h r)) direction) fleet = Some True"
    by blast
  then show ?thesis
  proof cases
    case 1
    with assms(1) show ?thesis by simp
  next
    case 2
    from 2(2) obtain cs where
      cs: "getCellsAt (h r) (ship_x (h r)) (ship_y (h r))
             (Some (turned (orientation (h r)) direction)) = Some cs"
        "canOccupy h r cs fleet = Some True"
      by (auto simp: canRotateTo_def split: bind_splits)
    let ?s = "(h r)\<lparr>orientation := turned (orientation (h r)) direction\<rparr>"
    have "getCells ?s = Some cs"
      using cs(1) by (simp add: getCells_def getCellsAt_def)
    then have "placementOK (h(r := ?s)) fleet"
      by (intro placementOK_repose [OF assms(1) _ _ _ cs(2)]) (simp_all add: isAlive_def)
    then show ?thesis by (simp add: 2(1) rotated_def)
  qed
qed

lemma placementOK_step:
  "step b fleet h h' \<Longrightarrow> placementOK h fleet \<Longrightarrow> placementOK h' fleet"
proof (induction rule: step.induct)
  case (step_move h r direction ok h')
  then show ?case by (simp add: placementOK_move)
next
  case (step_rotate h r direction ok h')
  then show ?case by (simp add: placementOK_rotate)
next
  case (step_fire h r targetCell res h')
  then show ?case using placementOK_damageOnly fire_damageOnly by blast
next
  case (step_fireBroadside h r hits h')
  then show ?case using placementOK_damageOnly fireBroadside_damageOnly by blast
qed

lemma reachable_placementOK: "reachable b fleet h \<Longrightarrow> placementOK h fleet"
  by (induction rule: reachable.induct) (simp_all add: placementOK_step)

lemma move_guarded:
  assumes "move h r direction fleet = Some (ok, h')" "h' \<noteq> h"
  shows "\<exists>cs. getCells (h' r) = Some cs \<and> canOccupy h r cs fleet = Some True"
proof -
  from move_outcome [OF assms(1)] assms(2) obtain d where
    d: "h' = moved h r d"
      "canMoveTo h r (ship_x (h r) + fst d) (ship_y (h r) + snd d) fleet = Some True"
    by blast
  from d(2) obtain cs where
    "getCellsAt (h r) (ship_x (h r) + fst d) (ship_y (h r) + snd d) None = Some cs"
    "canOccupy h r cs fleet = Some True"
    by (auto simp: canMoveTo_def split: bind_splits)
  then show ?thesis
    by (simp add: d(1) moved_def getCells_def getCellsAt_def)
qed

lemma rotate_guarded:
  assumes "rotate h r direction fleet = Some (ok, h')" "h' \<noteq> h"
  shows "\<exists>cs. getCells (h' r) = Some cs \<and> canOccupy h r cs fleet = Some True"
proof -
  from rotate_outcome [OF assms(1)] assms(2) have
    d: "h' = rotated h r direction"
      "canRotateTo h r (turned (orientation (h r)) direction) fleet = Some True"
    by blast+
  from d(2) obtain cs where
    "getCellsAt (h r) (ship_x (h r)) (ship_y (h r)) (Some (turned (orientation (h r)) direction)) = Some cs"
    "canOccupy h r cs fleet = Some True"
    by (auto simp: canRotateTo_def split: bind_splits)
  then show ?thesis
    by (simp add: d(1) rotated_def getCells_def getCellsAt_def)
qed

text \<open>
  Claim C1. In every state reached from a valid placement by \<open>move\<close>, \<open>rotate\<close>, \<open>fire\<close> and
  \<open>fireBroadside\<close> steps (by any ship, in any order), every living ship of the fleet has
  all its cells on the board and shares no cell with another living ship of the fleet;
  and a \<open>move\<close> or \<open>rotate\<close> changes the heap only when \<open>canOccupy\<close> has accepted the cells
  the ship then occupies, against all other living ships.
\<close>

theorem reachable_ships_disjoint_in_bounds:
  assumes "reachable b fleet h"
  shows "(\<forall>r \<in> set fleet. isAlive (h r) \<longrightarrow>
           (\<exists>cs. getCells (h r) = Some cs \<and>
                 (\<forall>c \<in> set cs. isValidCell (board (h r)) (fst c) (snd c)) \<and>
                 (\<forall>r' \<in> set fleet. r' \<noteq> r \<and> isAlive (h r') \<longrightarrow>
                    (\<exists>cs'. getCells (h r') = Some cs' \<and> set cs \<inter> set cs' = {})))) \<and>
         (\<forall>r direction ok h'.
            (move h r direction fleet = Some (ok, h') \<or> rotate h r direction fleet = Some (ok, h')) \<and>
            h' \<noteq> h \<longrightarrow>
            (\<exists>cs. getCells (h' r) = Some cs \<and> canOccupy h r cs fleet = Some True))"
  using reachable_placementOK [OF assms] move_guarded rotate_guarded
  unfolding placementOK_iff by blast

theorem reachable_ships_disjoint_in_bounds_witness:
  "reachable gameBoard [0, 1, 2] (moved skirmishHeap 2 (- 1, 0)) \<and>
   placementOK (moved skirmishHeap 2 (- 1, 0)) [0, 1, 2] \<and>
   (\<exists>h'. fireBroadside gameBoard (moved skirmishHeap 2 (- 1, 0)) 2 [0, 1, 2]
            = Some ([(0, False), (1, False)], h') \<and>
         reachable gameBoard [0, 1, 2] h' \<and> placementOK h' [0, 1, 2])"
proof -
  let ?h1 = "moved skirmishHeap 2 (- 1, 0)"
  have "placementOK skirmishHeap [0, 1, 2]"
    by code_simp
  then have r0: "reachable gameBoard [0, 1, 2] skirmishHeap"
    by (rule start)
  have "move skirmishHeap 2 ''forward'' [0, 1, 2] = Some (True, ?h1)"
    by (simp add: move_step offset_def skirmishHeap_def eval_defs)
  then have "step gameBoard [0, 1, 2] skirmishHeap ?h1"
    by (rule step_move)
  with r0 have r1: "reachable gameBoard [0, 1, 2] ?h1"
    by (rule next_state)
  have p1: "placementOK ?h1 [0, 1, 2]"
    unfolding placementOK_iff
    using reachable_ships_disjoint_in_bounds [OF r1] by (rule conjunct1)
  have "map_option fst (fireBroadside gameBoard ?h1 2 [0, 1, 2]) = Some [(0, False), (1, False)]"
    by code_simp
  then obtain h' where f: "fireBroadside gameBoard ?h1 2 [0, 1, 2] = Some ([(0, False), (1, False)], h')"
    by auto
  then have "step gameBoard [0, 1, 2] ?h1 h'"
    by (rule step_fireBroadside)
  with r1 have r2: "reachable gameBoard [0, 1, 2] h'"
    by (rule next_state)
  have "placementOK h' [0, 1, 2]"
    unfolding placementOK_iff
    using reachable_ships_disjoint_in_bounds [OF r2] by (rule conjunct1)
  with f r2 have "\<exists>h'. fireBroadside gameBoard ?h1 2 [0, 1, 2] = Some ([(0, False), (1, False)], h') \<and>
         reachable gameBoard [0, 1, 2] h' \<and> placementOK h' [0, 1, 2]"
    by blast
  with r1 p1 show ?thesis by (intro conjI)
qed

subsection \<open>The position score of the AI\<close>

lemma getCells_occupied: "validOrientation (orientation s) \<Longrightarrow> getCells s = Some (occupiedCells s)"
  by (simp add: getCells_valid occupiedCells_def)

lemma getFireZones_set:
  assumes "validOrientation (orientation s)"
  shows "\<exists>zs. getFireZones s 3 = Some zs \<and> distinct zs \<and> set zs = wideZone_spec s"
proof -
  let ?perp = "if orientation s = UP \<or> orientation s = DOWN
               then [(1, 0), (- 1, 0)] else [(0, 1), (0, - 1 :: int)] :: (int \<times> int) list"
  let ?cand = "concat (map (\<lambda>cell. concat (map (\<lambda>pdir.
                    map (\<lambda>distance. (fst cell + fst pdir * distance, snd cell + snd pdir * distance))
                      [1..3]) ?perp)) (occupiedCells s))"
  let ?zs = "foldl (pushUnique (board s)) [] ?cand"
  have z: "getFireZones s 3 = Some ?zs"
    by (simp add: getFireZones_def getCells_occupied [OF assms])
  have d: "distinct ?zs"
    by (rule foldl_pushUnique_distinct) simp
  have "set ?cand = (\<Union>cell \<in> set (occupiedCells s). \<Union>d \<in> set [1..3]. lateralAt (orientation s) cell d)"
    by (auto simp: lateralAt_def)
  then have "set ?zs = wideZone_spec s"
    unfolding foldl_pushUnique_set wideZone_spec_def by simp
  with z d show ?thesis by blast
qed

lemma hitCellsOf_filter: "hitCellsOf zs cs = filter (\<lambda>c. c \<in> set zs) cs"
  unfolding hitCellsOf_def by (rule filter_cong [OF refl]) (auto simp: prod_eq_iff)

lemma targetsLoop_sum:
  assumes "wellFormed h"
  shows "\<exists>ts. targetsLoop h ship zs rs = Some ts \<and>
           (\<Sum>t \<leftarrow> ts. int (length (snd t))) =
           (\<Sum>r \<leftarrow> enemiesOf h ship rs. int (length (filter (\<lambda>c. c \<in> set zs) (occupiedCells (h r)))))"
proof (induction rs)
  case Nil
  show ?case by (simp add: enemiesOf_def)
next
  case (Cons r rs)
  from assms have cs: "getCells (h r) = Some (occupiedCells (h r))"
    by (simp add: getCells_occupied wellFormed_def)
  from Cons obtain ts where ts: "targetsLoop h ship zs rs = Some ts"
    "(\<Sum>t \<leftarrow> ts. int (length (snd t))) =
           (\<Sum>r \<leftarrow> enemiesOf h ship rs. int (length (filter (\<lambda>c. c \<in> set zs) (occupiedCells (h r)))))"
    by blast
  show ?case
  proof (cases "r = ship \<or> team (h r) = team (h ship) \<or> \<not> isAlive (h r)")
    case True
    with ts show ?thesis by (auto simp: enemiesOf_def)
  next
    case False
    with ts cs show ?thesis
      by (auto simp: enemiesOf_def Let_def hitCellsOf_filter)
  qed
qed

lemma foldl_score:
  "foldl (\<lambda>score (target, hitCells). score + int (length hitCells) * 10) acc ts
     = acc + 10 * (\<Sum>t \<leftarrow> ts. int (length (snd t)))"
  by (induction ts arbitrary: acc) (auto simp: algebra_simps)

lemma count_matches:
  assumes "distinct zs"
  shows "length (concat (map (\<lambda>cell. filter (\<lambda>zone. fst cell = fst zone \<and> snd cell = snd zone) zs) cs))
           = length (filter (\<lambda>c. c \<in> set zs) cs)"
proof (induction cs)
  case Nil
  show ?case by simp
next
  case (Cons c cs)
  have e: "(\<lambda>zone. fst c = fst zone \<and> snd c = snd zone) = (\<lambda>zone. zone = c)"
    by (auto simp: prod_eq_iff)
  have "length (filter (\<lambda>zone. zone = c) zs) = (if c \<in> set zs then 1 else 0)"
    using assms by (induction zs) auto
  with Cons show ?case by (simp add: e)
qed

lemma threatLoop_sum:
  assumes "wellFormed h"
  shows "threatLoop h ship score ps =
           Some (score - 5 * (\<Sum>p \<leftarrow> filter (\<lambda>p. isAlive (h p)) ps.
                   int (length (filter (\<lambda>c. c \<in> wideZone_spec (h p)) (occupiedCells (h ship))))))"
proof (induction ps arbitrary: score)
  case Nil
  show ?case by simp
next
  case (Cons p ps)
  from assms have cs: "getCells (h ship) = Some (occupiedCells (h ship))"
    by (simp add: getCells_occupied wellFormed_def)
  from assms obtain zs where
    zs: "getFireZones (h p) 3 = Some zs" "distinct zs" "set zs = wideZone_spec (h p)"
    using getFireZones_set [of "h p"] by (auto simp: wellFormed_def)
  show ?case
    by (simp add: Cons.IH cs zs(1) Let_def count_matches [OF zs(2)] zs(3) algebra_simps)
qed

lemma distanceLoop_sum:
  "distanceLoop h ship score ps =
     score + (\<Sum>p \<leftarrow> filter (\<lambda>p. isAlive (h p)) ps. max 0 (10 - manhattan (h ship) (h p)))"
  by (induction ps arbitrary: score) (simp_all add: Let_def manhattan_def)

lemma evaluatePosition_score:
  assumes w: "wellFormed h"
  shows "evaluatePosition b h ship ps fleet = Some (score_spec b h ship ps fleet)"
proof -
  from w have "validOrientation (orientation (h ship))"
    by (simp add: wellFormed_def)
  from getSideFireZones_set [OF this] obtain zs where
    zs: "getSideFireZones b (h ship) = Some zs" "set zs = sideFireZones_spec b (h ship)"
    by blast
  from targetsLoop_sum [OF w] obtain ts where
    ts: "targetsLoop h ship zs fleet = Some ts"
      "(\<Sum>t \<leftarrow> ts. int (length (snd t))) =
           (\<Sum>r \<leftarrow> enemiesOf h ship fleet. int (length (filter (\<lambda>c. c \<in> set zs) (occupiedCells (h r)))))"
    by blast
  have t: "getTargetsInRange b h ship fleet = Some ts"
    by (simp add: getTargetsInRange_def zs(1) ts(1))
  note sum = ts(2) [unfolded zs(2)]
  show ?thesis
    unfolding evaluatePosition_def t Let_def foldl_score
    by (simp add: sum threatLoop_sum [OF w] distanceLoop_sum score_spec_def)
qed


text \<open>
  Claim C5, as stated: 5 is subtracted per own cell that lies in some living enemy's wide
  zone. It fails when two enemies cover the same cell: the enemy ship on (3,5),(4,5)
  between the player ships of rows 4 and 6 has one cell, (3,5), in both wide zones; the
  code subtracts 5 for each of the two player ships and scores 0 - 10 + 9 + 9 = 8, the
  claim's formula gives 0 - 5 + 9 + 9 = 13.
\<close>

theorem evaluatePosition_counterexample:
  "evaluatePosition gameBoard skirmishHeap 2 [0, 1] [0, 1, 2] = Some 8 \<and>
   score_claimed gameBoard skirmishHeap 2 [0, 1] [0, 1, 2] = 13 \<and>
   occupiedCells (skirmishHeap 2) = [(3, 5), (4, 5)] \<and>
   (3, 5) \<in> set (wideList (skirmishHeap 0)) \<and> (3, 5) \<in> set (wideList (skirmishHeap 1)) \<and>
   (4, 5) \<notin> set (wideList (skirmishHeap 0)) \<and> (4, 5) \<notin> set (wideList (skirmishHeap 1))"
  by code_simp

text \<open>
  Claim C5, amended: on a heap of ships with valid orientations, \<open>evaluatePosition\<close> returns
  10 per occupied cell of each living other-team ship of \<open>allShips\<close> inside the ship's narrow
  fire zone, minus 5 for every pair of a living ship of \<open>playerShips\<close> and an own occupied
  cell inside that ship's wide (range 3) threat zone, plus \<open>max(0, 10 - distance)\<close> per living
  ship of \<open>playerShips\<close>, the distance being the Manhattan distance of the bows.
\<close>

theorem evaluatePosition_formula:
  assumes "wellFormed h"
  shows "evaluatePosition b h ship ps fleet =
           Some (10 * (\<Sum>r \<leftarrow> enemiesOf h ship fleet.
                         int (length (filter (\<lambda>c. c \<in> sideFireZones_spec b (h ship)) (occupiedCells (h r)))))
                 - 5 * (\<Sum>p \<leftarrow> filter (\<lambda>p. isAlive (h p)) ps.
                         int (length (filter (\<lambda>c. c \<in> wideZone_spec (h p)) (occupiedCells (h ship)))))
                 + (\<Sum>p \<leftarrow> filter (\<lambda>p. isAlive (h p)) ps.
                         max 0 (10 - (\<bar>ship_x (h ship) - ship_x (h p)\<bar> + \<bar>ship_y (h ship) - ship_y (h p)\<bar>))))"
  using evaluatePosition_score [OF assms, of b ship ps fleet]
  unfolding score_spec_def manhattan_def .

theorem evaluatePosition_formula_witness:
  "wellFormed skirmishHeap \<and>
   evaluatePosition gameBoard skirmishHeap 2 [0, 1] [0, 1, 2] = Some 8 \<and>
   10 * (\<Sum>r \<leftarrow> enemiesOf skirmishHeap 2 [0, 1, 2].
           int (length (filter (\<lambda>c. c \<in> sideFireZones_spec gameBoard (skirmishHeap 2))
                          (occupiedCells (skirmishHeap r)))))
     - 5 * (\<Sum>p \<leftarrow> filter (\<lambda>p. isAlive (skirmishHeap p)) [0, 1].
           int (length (filter (\<lambda>c. c \<in> wideZone_spec (skirmishHeap p)) (occupiedCells (skirmishHeap 2)))))
     + (\<Sum>p \<leftarrow> filter (\<lambda>p. isAlive (skirmishHeap p)) [0, 1].
           max 0 (10 - (\<bar>ship_x (skirmishHeap 2) - ship_x (skirmishHeap p)\<bar>
                        + \<bar>ship_y (skirmishHeap 2) - ship_y (skirmishHeap p)\<bar>))) = 8"
proof -
  have w: "wellFormed skirmishHeap"
    by (simp add: wellFormed_def skirmishHeap_def validOrientation_def newShip_def)
  have e: "evaluatePosition gameBoard skirmishHeap 2 [0, 1] [0, 1, 2] = Some 8"
    by code_simp
  from evaluatePosition_formula [OF w, of gameBoard 2 "[0, 1]" "[0, 1, 2]"] e w
  show ?thesis by simp
qed

subsection \<open>Forward and back\<close>

lemma placementOK_canMoveTo:
  assumes "placementOK h fleet" "this \<in> set fleet" "isAlive (h this)"
  shows "canMoveTo h this (ship_x (h this)) (ship_y (h this)) fleet = Some True"
proof -
  from assms obtain cs where
    cs: "getCells (h this) = Some cs"
      "\<forall>c \<in> set cs. isValidCell (board (h this)) (fst c) (snd c)"
      "\<forall>r' \<in> set fleet. r' \<noteq> this \<and> isAlive (h r') \<longrightarrow>
         (\<exists>cs'. getCells (h r') = Some cs' \<and> set cs \<inter> set cs' = {})"
    unfolding placementOK_iff by blast
  from cs(2,3) have "canOccupy h this cs fleet = Some True"
    unfolding canOccupy_True by blast
  moreover from cs(1) have "getCellsAt (h this) (ship_x (h this)) (ship_y (h this)) None = Some cs"
    by (simp add: getCells_def getCellsAt_def)
  ultimately show ?thesis
    by (simp add: canMoveTo_def)
qed

text \<open>
  Claim C8. In every reachable state, for every living ship of the fleet: if
  \<open>move('forward')\<close> succeeds (returns true, and the bow has changed), the immediately
  following \<open>move('backward')\<close> on the same ship succeeds too and returns the very heap from
  before the first call, so the ship has its original bow position and its original
  occupied cells.
\<close>

theorem move_forward_backward:
  assumes "reachable b fleet h" and "this \<in> set fleet" and "isAlive (h this)"
      and "move h this ''forward'' fleet = Some (True, h1)"
  shows "move h1 this ''backward'' fleet = Some (True, h) \<and>
         (ship_x (h1 this), ship_y (h1 this)) \<noteq> (ship_x (h this), ship_y (h this)) \<and>
         (\<forall>ok h2. move h1 this ''backward'' fleet = Some (ok, h2) \<longrightarrow>
            ok \<and> ship_x (h2 this) = ship_x (h this) \<and> ship_y (h2 this) = ship_y (h this) \<and>
            getCells (h2 this) = getCells (h this))"
proof -
  have "placementOK h fleet"
    by (rule reachable_placementOK [OF assms(1)])
  then have "canMoveTo h this (ship_x (h this)) (ship_y (h this)) fleet = Some True"
    using assms(2,3) by (rule placementOK_canMoveTo)
  then have undone: "move h1 this ''backward'' fleet = Some (True, h)"
    using assms(4) by (rule move_there_and_back)
  moreover have "(ship_x (h1 this), ship_y (h1 this)) \<noteq> (ship_x (h this), ship_y (h this))"
    by (rule move_forward_changes_bow [OF assms(4)])
  ultimately show ?thesis by simp
qed

theorem move_forward_backward_witness:
  "reachable gameBoard [0, 1, 2] (moved skirmishHeap 2 (- 1, 0)) \<and> 2 \<in> set [0, 1, 2 :: nat] \<and>
   isAlive (moved skirmishHeap 2 (- 1, 0) 2) \<and>
   move (moved skirmishHeap 2 (- 1, 0)) 2 ''forward'' [0, 1, 2]
     = Some (True, moved (moved skirmishHeap 2 (- 1, 0)) 2 (- 1, 0)) \<and>
   move (moved (moved skirmishHeap 2 (- 1, 0)) 2 (- 1, 0)) 2 ''backward'' [0, 1, 2]
     = Some (True, moved skirmishHeap 2 (- 1, 0))"
proof -
  let ?h1 = "moved skirmishHeap 2 (- 1, 0)"
  let ?h2 = "moved ?h1 2 (- 1, 0)"
  have "placementOK skirmishHeap [0, 1, 2]"
    by code_simp
  then have "reachable gameBoard [0, 1, 2] skirmishHeap"
    by (rule start)
  moreover have "step gameBoard [0, 1, 2] skirmishHeap ?h1"
    by (rule step_move [where r = 2 and direction = "''forward''" and ok = True])
       (simp add: move_step offset_def skirmishHeap_def eval_defs)
  ultimately have r: "reachable gameBoard [0, 1, 2] ?h1"
    by (rule next_state)
  have m: "2 \<in> set [0, 1, 2 :: nat]"
    by simp
  have a: "isAlive (?h1 2)"
    by (simp add: moved_def skirmishHeap_def isAlive_def newShip_def)
  have f: "move ?h1 2 ''forward'' [0, 1, 2] = Some (True, ?h2)"
    by (simp add: move_step offset_def moved_def skirmishHeap_def eval_defs)
  from move_forward_backward [OF r m a f]
  have "move ?h2 2 ''backward'' [0, 1, 2] = Some (True, ?h1)" ..
  with r m a f show ?thesis by (intro conjI)
qed

text \<open>
  The ship has to be alive. \<open>move\<close> itself does not test \<open>isAlive\<close>, and \<open>canOccupy\<close> ignores
  destroyed ships, so a living ship may stand on the cells of a wreck; such a wreck could
  move forward but not back. The game never moves a destroyed ship: a click selects only
  living ships, and the AI picks among the living ones.
\<close>

lemma move_wreck_no_return:
  "move wreckHeap 0 ''forward'' [0, 1] = Some (True, wreckHeapForward) \<and>
   move wreckHeapForward 0 ''backward'' [0, 1] = Some (False, wreckHeapForward) \<and>
   \<not> isAlive (wreckHeap 0)"
  by (simp add: wreckHeap_def wreckHeapForward_def eval_defs)

end
